theory Spec2Isabelle
  imports Main "HOL-Library.Signed_Division" "HOL-Library.Multiset" "HOL-Library.AList"
begin

section \<open>cc-sidecar: session tracker and transcript parser\<close>

text \<open>
  A shallow embedding of \<^verbatim>\<open>internal/session/tracker.go\<close> and
  \<^verbatim>\<open>internal/session/transcript.go\<close>. Go strings are byte sequences and are
  modelled as \<^typ>\<open>string\<close> (one \<^typ>\<open>char\<close> per byte). Calls into the Go
  standard library and the operating system (opening a file, scanning it into lines,
  decoding JSON, parsing a timestamp, reading the clock, the order in which
  \<^verbatim>\<open>range\<close> visits a map) are made explicit: their results are inputs of the model.
  Calls to the logger have no effect on any value the program computes and are left out.
\<close>

subsection \<open>time.Time and time.Duration\<close>

text \<open>
  A \<^verbatim>\<open>time.Time\<close> is the number of nanoseconds since the zero Time
  (January 1, year 1, 00:00:00 UTC); \<^verbatim>\<open>IsZero\<close> holds of that instant only.
  A \<^verbatim>\<open>time.Duration\<close> is an int64 count of nanoseconds; \<^verbatim>\<open>Time.Sub\<close>
  saturates at the ends of that range, and \<^verbatim>\<open>Duration.Milliseconds\<close> is Go's
  integer division, which truncates toward zero.
\<close>

type_synonym Time = int
type_synonym Duration = int

definition minDuration :: Duration where
  "minDuration = - (2 ^ 63)"

definition maxDuration :: Duration where
  "maxDuration = 2 ^ 63 - 1"

definition IsZero :: "Time \<Rightarrow> bool" where
  "IsZero t \<longleftrightarrow> t = 0"

definition Sub :: "Time \<Rightarrow> Time \<Rightarrow> Duration" where
  "Sub t u =
     (if t - u > maxDuration then maxDuration
      else if t - u < minDuration then minDuration
      else t - u)"

definition Milliseconds :: "Duration \<Rightarrow> int" where
  "Milliseconds d = d sdiv 1000000"

subsection \<open>Session identifier from the file name\<close>

definition isPathSeparator :: "char \<Rightarrow> bool" where
  "isPathSeparator c \<longleftrightarrow> c = CHR ''/''"

text \<open>
  \<^verbatim>\<open>filepath.Base\<close> (Unix): the empty path gives \<^verbatim>\<open>.\<close>; trailing separators
  are dropped; the result is what follows the last remaining separator, or a single
  separator when nothing is left.
\<close>

definition Base :: "string \<Rightarrow> string" where
  "Base p =
     (if p = [] then ''.''
      else let stripped = rev (dropWhile isPathSeparator (rev p));
               elem = rev (takeWhile (\<lambda>c. \<not> isPathSeparator c) (rev stripped))
           in if elem = [] then ''/'' else elem)"

definition HasSuffix :: "string \<Rightarrow> string \<Rightarrow> bool" where
  "HasSuffix s suffix \<longleftrightarrow>
     length s \<ge> length suffix \<and> drop (length s - length suffix) s = suffix"

definition TrimSuffix :: "string \<Rightarrow> string \<Rightarrow> string" where
  "TrimSuffix s suffix =
     (if HasSuffix s suffix then take (length s - length suffix) s else s)"

definition isHexDigit :: "char \<Rightarrow> bool" where
  "isHexDigit c \<longleftrightarrow>
     ((of_char (CHR ''0'') :: nat) \<le> of_char c \<and> (of_char c :: nat) \<le> of_char (CHR ''9''))
   \<or> ((of_char (CHR ''a'') :: nat) \<le> of_char c \<and> (of_char c :: nat) \<le> of_char (CHR ''f''))
   \<or> ((of_char (CHR ''A'') :: nat) \<le> of_char c \<and> (of_char c :: nat) \<le> of_char (CHR ''F''))"

text \<open>
  The loop of \<^verbatim>\<open>isUUIDLike\<close>, with its index. The Go loop ranges over runes with
  their byte offsets. A byte below 128 is its own rune. A byte from 128 on starts (or is
  part of) a rune that is neither a hyphen nor a hexadecimal digit, so the Go loop
  returns false at that offset, and so does this one.
\<close>

fun isUUIDLike_loop :: "nat \<Rightarrow> string \<Rightarrow> bool" where
  "isUUIDLike_loop i [] = True"
| "isUUIDLike_loop i (c # cs) =
     (if i = 8 \<or> i = 13 \<or> i = 18 \<or> i = 23
      then (if c \<noteq> CHR ''-'' then False else isUUIDLike_loop (i + 1) cs)
      else (if \<not> isHexDigit c then False else isUUIDLike_loop (i + 1) cs))"

definition isUUIDLike :: "string \<Rightarrow> bool" where
  "isUUIDLike s = (if length s \<noteq> 36 then False else isUUIDLike_loop 0 s)"

definition extractSessionIDFromPath :: "string \<Rightarrow> string" where
  "extractSessionIDFromPath p =
     (let base = TrimSuffix (Base p) ''.jsonl''
      in if length base \<ge> 36 \<and> isUUIDLike (drop (length base - 36) base)
         then drop (length base - 36) base
         else base)"

subsection \<open>JSON values and the decoding of a transcript line\<close>

text \<open>
  A JSON value as \<^verbatim>\<open>encoding/json\<close> sees it. An object keeps its members in the
  order of the text, duplicates included. Strings are the decoded Go strings.
\<close>

datatype json =
    JNull
  | JBool bool
  | JNumber string
  | JString string
  | JArray "json list"
  | JObject "(string \<times> json) list"

text \<open>
  One token of the line scanner: no bytes at all, bytes that are not one valid JSON
  value (\<^verbatim>\<open>json.Unmarshal\<close> returns a syntax error before it stores anything), or
  the JSON value the bytes denote.
\<close>

datatype line = EmptyLine | Malformed | JSON json

text \<open>
  The structs the lines are decoded into. A \<^verbatim>\<open>json.RawMessage\<close> field holds the
  value of its member as it stands, \<open>None\<close> while no member has set it. The fields
  \<^verbatim>\<open>ToolName\<close> and \<^verbatim>\<open>FilePath\<close> of \<^verbatim>\<open>jsonlLine\<close> are tagged
  \<^verbatim>\<open>json:"-"\<close> and never read; they are left out.
\<close>

record jsonlLine =
  jl_Type :: string
  jl_SessionID :: string
  jl_Timestamp :: string
  jl_Message :: "json option"
  jl_CWD :: string

record messageContent =
  mc_Role :: string
  mc_Content :: "json option"

record contentBlock =
  cb_Type :: string
  cb_Name :: string
  cb_Input :: "json option"

record toolInput =
  ti_FilePath :: string

definition zero_jsonlLine :: jsonlLine where
  "zero_jsonlLine =
     \<lparr>jl_Type = [], jl_SessionID = [], jl_Timestamp = [], jl_Message = None, jl_CWD = []\<rparr>"

definition zero_messageContent :: messageContent where
  "zero_messageContent = \<lparr>mc_Role = [], mc_Content = None\<rparr>"

definition zero_contentBlock :: contentBlock where
  "zero_contentBlock = \<lparr>cb_Type = [], cb_Name = [], cb_Input = None\<rparr>"

definition zero_toolInput :: toolInput where
  "zero_toolInput = \<lparr>ti_FilePath = []\<rparr>"

text \<open>
  How \<^verbatim>\<open>json.Unmarshal\<close> fills a struct: the members of an object are taken in
  order; a member whose key equals a field's name, exactly or up to the case of its
  letters, is stored into that field, any other member is skipped. A string field takes
  a JSON string, is left alone by \<^verbatim>\<open>null\<close>, and records a type error for any
  other value; decoding goes on after a type error and \<^verbatim>\<open>Unmarshal\<close> reports it
  at the end. \<^verbatim>\<open>null\<close> for a whole struct leaves it as it is. Key folding is
  modelled for ASCII letters.
\<close>

definition asciiLower :: "char \<Rightarrow> char" where
  "asciiLower c =
     (if (of_char (CHR ''A'') :: nat) \<le> of_char c \<and> (of_char c :: nat) \<le> of_char (CHR ''Z'')
      then char_of ((of_char c :: nat) + 32) else c)"

definition keyIs :: "string \<Rightarrow> string \<Rightarrow> bool" where
  "keyIs name key \<longleftrightarrow> key = name \<or> map asciiLower key = map asciiLower name"

fun storeString :: "json \<Rightarrow> string \<Rightarrow> string" where
  "storeString (JString s) old = s"
| "storeString v old = old"

fun stringTypeError :: "json \<Rightarrow> bool" where
  "stringTypeError (JString s) = False"
| "stringTypeError JNull = False"
| "stringTypeError v = True"

definition jsonlLine_member :: "jsonlLine \<times> bool \<Rightarrow> string \<times> json \<Rightarrow> jsonlLine \<times> bool" where
  "jsonlLine_member st kv =
     (case st of (e, err) \<Rightarrow> case kv of (k, v) \<Rightarrow>
        if keyIs ''type'' k
          then (e\<lparr>jl_Type := storeString v (jl_Type e)\<rparr>, err \<or> stringTypeError v)
        else if keyIs ''sessionId'' k
          then (e\<lparr>jl_SessionID := storeString v (jl_SessionID e)\<rparr>, err \<or> stringTypeError v)
        else if keyIs ''timestamp'' k
          then (e\<lparr>jl_Timestamp := storeString v (jl_Timestamp e)\<rparr>, err \<or> stringTypeError v)
        else if keyIs ''message'' k
          then (e\<lparr>jl_Message := Some v\<rparr>, err)
        else if keyIs ''cwd'' k
          then (e\<lparr>jl_CWD := storeString v (jl_CWD e)\<rparr>, err \<or> stringTypeError v)
        else (e, err))"

text \<open>\<^verbatim>\<open>json.Unmarshal(line, &entry)\<close>; \<open>None\<close> is a returned error.\<close>

definition unmarshal_jsonlLine :: "json \<Rightarrow> jsonlLine option" where
  "unmarshal_jsonlLine v =
     (case v of
        JObject kvs \<Rightarrow>
          (case foldl jsonlLine_member (zero_jsonlLine, False) kvs of
             (e, err) \<Rightarrow> if err then None else Some e)
      | JNull \<Rightarrow> Some zero_jsonlLine
      | _ \<Rightarrow> None)"

definition messageContent_member ::
    "messageContent \<times> bool \<Rightarrow> string \<times> json \<Rightarrow> messageContent \<times> bool" where
  "messageContent_member st kv =
     (case st of (m, err) \<Rightarrow> case kv of (k, v) \<Rightarrow>
        if keyIs ''role'' k
          then (m\<lparr>mc_Role := storeString v (mc_Role m)\<rparr>, err \<or> stringTypeError v)
        else if keyIs ''content'' k
          then (m\<lparr>mc_Content := Some v\<rparr>, err)
        else (m, err))"

definition decode_messageContent :: "messageContent \<times> bool \<Rightarrow> json \<Rightarrow> messageContent \<times> bool" where
  "decode_messageContent st v =
     (case v of
        JObject kvs \<Rightarrow> foldl messageContent_member st kvs
      | JNull \<Rightarrow> st
      | _ \<Rightarrow> (fst st, True))"

definition msg_member :: "messageContent \<times> bool \<Rightarrow> string \<times> json \<Rightarrow> messageContent \<times> bool" where
  "msg_member st kv =
     (case kv of (k, v) \<Rightarrow> if keyIs ''message'' k then decode_messageContent st v else st)"

text \<open>
  \<^verbatim>\<open>json.Unmarshal(line, &msg)\<close> in \<^verbatim>\<open>extractFileChanges\<close>, where
  \<^verbatim>\<open>msg\<close> has the one field \<^verbatim>\<open>Message messageContent\<close>. The result is that field.
\<close>

definition unmarshal_msg :: "json \<Rightarrow> messageContent option" where
  "unmarshal_msg v =
     (case v of
        JObject kvs \<Rightarrow>
          (case foldl msg_member (zero_messageContent, False) kvs of
             (m, err) \<Rightarrow> if err then None else Some m)
      | JNull \<Rightarrow> Some zero_messageContent
      | _ \<Rightarrow> None)"

definition contentBlock_member ::
    "contentBlock \<times> bool \<Rightarrow> string \<times> json \<Rightarrow> contentBlock \<times> bool" where
  "contentBlock_member st kv =
     (case st of (b, err) \<Rightarrow> case kv of (k, v) \<Rightarrow>
        if keyIs ''type'' k
          then (b\<lparr>cb_Type := storeString v (cb_Type b)\<rparr>, err \<or> stringTypeError v)
        else if keyIs ''name'' k
          then (b\<lparr>cb_Name := storeString v (cb_Name b)\<rparr>, err \<or> stringTypeError v)
        else if keyIs ''input'' k
          then (b\<lparr>cb_Input := Some v\<rparr>, err)
        else (b, err))"

definition decode_contentBlock :: "json \<Rightarrow> contentBlock \<times> bool" where
  "decode_contentBlock v =
     (case v of
        JObject kvs \<Rightarrow> foldl contentBlock_member (zero_contentBlock, False) kvs
      | JNull \<Rightarrow> (zero_contentBlock, False)
      | _ \<Rightarrow> (zero_contentBlock, True))"

text \<open>
  \<^verbatim>\<open>json.Unmarshal(msg.Message.Content, &blocks)\<close>: an empty raw message is a syntax
  error, \<^verbatim>\<open>null\<close> is the nil slice, an array is decoded element by element, and a
  type error in any element is the error of the whole call.
\<close>

definition unmarshal_blocks :: "json option \<Rightarrow> contentBlock list option" where
  "unmarshal_blocks raw =
     (case raw of
        None \<Rightarrow> None
      | Some (JArray xs) \<Rightarrow>
          (if list_ex (\<lambda>x. snd (decode_contentBlock x)) xs then None
           else Some (map (\<lambda>x. fst (decode_contentBlock x)) xs))
      | Some JNull \<Rightarrow> Some []
      | Some _ \<Rightarrow> None)"

definition toolInput_member :: "toolInput \<times> bool \<Rightarrow> string \<times> json \<Rightarrow> toolInput \<times> bool" where
  "toolInput_member st kv =
     (case st of (i, err) \<Rightarrow> case kv of (k, v) \<Rightarrow>
        if keyIs ''file_path'' k
          then (i\<lparr>ti_FilePath := storeString v (ti_FilePath i)\<rparr>, err \<or> stringTypeError v)
        else (i, err))"

text \<open>\<^verbatim>\<open>json.Unmarshal(block.Input, &input)\<close>.\<close>

definition unmarshal_toolInput :: "json option \<Rightarrow> toolInput option" where
  "unmarshal_toolInput raw =
     (case raw of
        None \<Rightarrow> None
      | Some (JObject kvs) \<Rightarrow>
          (case foldl toolInput_member (zero_toolInput, False) kvs of
             (i, err) \<Rightarrow> if err then None else Some i)
      | Some JNull \<Rightarrow> Some zero_toolInput
      | Some _ \<Rightarrow> None)"

subsection \<open>extractFileChanges\<close>

text \<open>
  The Go map \<^verbatim>\<open>filesChanged\<close> is used as a set of keys. It is modelled as the list
  of its keys, without repetition, in the order of their first insertion.
\<close>

definition setKey :: "string \<Rightarrow> string list \<Rightarrow> string list" where
  "setKey k ks = (if k \<in> set ks then ks else ks @ [k])"

definition block_step :: "string list \<Rightarrow> contentBlock \<Rightarrow> string list" where
  "block_step fs b =
     (if cb_Type b \<noteq> ''tool_use'' then fs
      else if cb_Name b \<noteq> ''Write'' \<and> cb_Name b \<noteq> ''Edit'' then fs
      else (case unmarshal_toolInput (cb_Input b) of
              None \<Rightarrow> fs
            | Some inp \<Rightarrow> if ti_FilePath inp \<noteq> [] then setKey (ti_FilePath inp) fs else fs))"

definition extractFileChanges :: "json \<Rightarrow> string list \<Rightarrow> string list" where
  "extractFileChanges v fs =
     (case unmarshal_msg v of
        None \<Rightarrow> fs
      | Some m \<Rightarrow>
          if mc_Role m \<noteq> ''assistant'' then fs
          else (case unmarshal_blocks (mc_Content m) of
                  None \<Rightarrow> fs
                | Some blocks \<Rightarrow> foldl block_step fs blocks))"

subsection \<open>parseTranscript\<close>

record CompletedSession =
  SessionID :: string
  TranscriptPath :: string
  FilesChanged :: "string list"
  WorkingDir :: string
  DurationMs :: int
  ExitCode :: int

text \<open>
  What \<^verbatim>\<open>bufio.Scanner\<close> delivers for an opened file: the tokens for which
  \<^verbatim>\<open>Scan\<close> returned true, and whether \<^verbatim>\<open>Err\<close> is non-nil once it has
  returned false (a read error, or a line longer than the 10 MB buffer).
\<close>

record transcript =
  scanned :: "line list"
  scanErr :: bool

text \<open>
  What the program asks of its surroundings: \<^verbatim>\<open>os.Open\<close> followed by the scan
  (\<open>None\<close> when the file cannot be opened), \<^verbatim>\<open>time.Parse(time.RFC3339Nano, s)\<close>
  (\<open>None\<close> on an error), the order in which \<^verbatim>\<open>range\<close> visits the keys of the
  map \<^verbatim>\<open>filesChanged\<close> (which Go leaves unspecified), and the answer of the
  tracker's \<^verbatim>\<open>processCheck\<close>.
\<close>

record runtime =
  os_Open :: "string \<Rightarrow> transcript option"
  time_Parse :: "string \<Rightarrow> Time option"
  range_keys :: "string list \<Rightarrow> string list"
  processCheck :: "string \<Rightarrow> bool"

record scan_state =
  sessionID :: string
  workingDir :: string
  filesChanged :: "string list"
  firstTS :: Time
  lastTS :: Time
  hasAssistantMsg :: bool

definition init_state :: scan_state where
  "init_state =
     \<lparr>sessionID = [], workingDir = [], filesChanged = [], firstTS = 0, lastTS = 0,
      hasAssistantMsg = False\<rparr>"

definition take_sessionID :: "jsonlLine \<Rightarrow> scan_state \<Rightarrow> scan_state" where
  "take_sessionID entry st =
     (if jl_SessionID entry \<noteq> [] \<and> sessionID st = []
      then st\<lparr>sessionID := jl_SessionID entry\<rparr> else st)"

definition take_workingDir :: "jsonlLine \<Rightarrow> scan_state \<Rightarrow> scan_state" where
  "take_workingDir entry st =
     (if jl_CWD entry \<noteq> [] \<and> workingDir st = []
      then st\<lparr>workingDir := jl_CWD entry\<rparr> else st)"

definition take_timestamp :: "(string \<Rightarrow> Time option) \<Rightarrow> jsonlLine \<Rightarrow> scan_state \<Rightarrow> scan_state" where
  "take_timestamp tparse entry st =
     (if jl_Timestamp entry \<noteq> []
      then (case tparse (jl_Timestamp entry) of
              None \<Rightarrow> st
            | Some ts \<Rightarrow>
                (if IsZero (firstTS st) then st\<lparr>firstTS := ts\<rparr> else st)\<lparr>lastTS := ts\<rparr>)
      else st)"

definition take_assistant :: "jsonlLine \<Rightarrow> scan_state \<Rightarrow> scan_state" where
  "take_assistant entry st =
     (if jl_Type entry = ''assistant'' then st\<lparr>hasAssistantMsg := True\<rparr> else st)"

text \<open>The body of the scan loop, in the order of the source.\<close>

definition scan_line :: "(string \<Rightarrow> Time option) \<Rightarrow> scan_state \<Rightarrow> line \<Rightarrow> scan_state" where
  "scan_line tparse st l =
     (case l of
        EmptyLine \<Rightarrow> st
      | Malformed \<Rightarrow> st
      | JSON v \<Rightarrow>
          (case unmarshal_jsonlLine v of
             None \<Rightarrow> st
           | Some entry \<Rightarrow>
               (let st' = take_assistant entry
                            (take_timestamp tparse entry
                              (take_workingDir entry (take_sessionID entry st)))
                in st'\<lparr>filesChanged := extractFileChanges v (filesChanged st')\<rparr>)))"

definition scan_all :: "(string \<Rightarrow> Time option) \<Rightarrow> line list \<Rightarrow> scan_state" where
  "scan_all tparse ls = foldl (scan_line tparse) init_state ls"

definition build :: "runtime \<Rightarrow> string \<Rightarrow> scan_state \<Rightarrow> CompletedSession option" where
  "build rt p st =
     (let sid = (if sessionID st = [] then extractSessionIDFromPath p else sessionID st)
      in if sid = [] then None
         else Some
           \<lparr>SessionID = sid,
            TranscriptPath = p,
            FilesChanged = range_keys rt (filesChanged st),
            WorkingDir = workingDir st,
            DurationMs =
              (if \<not> IsZero (firstTS st) \<and> \<not> IsZero (lastTS st)
               then Milliseconds (Sub (lastTS st) (firstTS st)) else 0),
            ExitCode = (if \<not> hasAssistantMsg st then 1 else 0)\<rparr>)"

definition parseTranscript :: "runtime \<Rightarrow> string \<Rightarrow> CompletedSession option" where
  "parseTranscript rt p =
     (case os_Open rt p of
        None \<Rightarrow> None
      | Some f \<Rightarrow> build rt p (scan_all (time_Parse rt) (scanned f)))"


subsection \<open>The tracker\<close>

record trackedFile =
  path :: string
  lastWrite :: Time
  reported :: bool
  reportedAt :: Time

text \<open>The channel \<^verbatim>\<open>done\<close> (field \<open>done_chan\<close>): made open by \<^verbatim>\<open>NewTracker\<close>, closed by \<^verbatim>\<open>Stop\<close>.\<close>

datatype chan = Open | Closed

text \<open>
  The map \<^verbatim>\<open>files\<close> is an association list without repeated keys; the entry
  behind a pointer is the value stored under its key. The fields \<^verbatim>\<open>onComplete\<close>
  and \<^verbatim>\<open>processCheck\<close> are functions of the surroundings: the calls of the first
  are an output of \<open>check\<close>, the answers of the second come with the
  \<^typ>\<open>runtime\<close> of each sweep. The mutex serialises \<^verbatim>\<open>Touch\<close> and the first
  half of \<^verbatim>\<open>check\<close>, so a history of the tracker is a sequence of such calls.
\<close>

record Tracker =
  files :: "(string \<times> trackedFile) list"
  idleThreshold :: Duration
  pollInterval :: Duration
  done_chan :: chan

definition cleanupGrace :: Duration where
  "cleanupGrace = 5 * (60 * 1000000000)"

definition NewTracker :: "Duration \<Rightarrow> Duration \<Rightarrow> Tracker" where
  "NewTracker idle poll =
     \<lparr>files = [], idleThreshold = idle, pollInterval = poll, done_chan = Open\<rparr>"

text \<open>\<^verbatim>\<open>Touch\<close>; the third argument is the reading of \<^verbatim>\<open>time.Now()\<close>.\<close>

definition Touch :: "Tracker \<Rightarrow> string \<Rightarrow> Time \<Rightarrow> Tracker" where
  "Touch t p now =
     (case map_of (files t) p of
        Some tf \<Rightarrow>
          t\<lparr>files := AList.update p (tf\<lparr>lastWrite := now, reported := False\<rparr>) (files t)\<rparr>
      | None \<Rightarrow>
          t\<lparr>files := AList.update p
                 \<lparr>path = p, lastWrite = now, reported = False, reportedAt = 0\<rparr> (files t)\<rparr>)"

text \<open>
  The body of the loop of \<^verbatim>\<open>check\<close> over one entry, on the map and the list
  \<^verbatim>\<open>readyPaths\<close>.
\<close>

definition check_entry ::
    "Duration \<Rightarrow> (string \<Rightarrow> bool) \<Rightarrow> Time \<Rightarrow>
     (string \<times> trackedFile) list \<times> string list \<Rightarrow> string \<times> trackedFile \<Rightarrow>
     (string \<times> trackedFile) list \<times> string list" where
  "check_entry thr live now st ent =
     (case st of (fs, readyPaths) \<Rightarrow> case ent of (p, tf) \<Rightarrow>
        if reported tf \<and> \<not> IsZero (reportedAt tf) \<and> Sub now (reportedAt tf) \<ge> cleanupGrace
          then (AList.delete p fs, readyPaths)
        else if reported tf then (fs, readyPaths)
        else if Sub now (lastWrite tf) < thr then (fs, readyPaths)
        else if live p then (fs, readyPaths)
        else (AList.update p (tf\<lparr>reported := True, reportedAt := now\<rparr>) fs, readyPaths @ [p]))"

text \<open>
  The first half of \<^verbatim>\<open>check\<close>, under the lock. Go leaves the order in which
  \<^verbatim>\<open>range\<close> visits the map unspecified; the entries are visited in the order of the
  list, which fixes the order of \<^verbatim>\<open>readyPaths\<close> and nothing else.
\<close>

definition check_locked :: "runtime \<Rightarrow> Time \<Rightarrow> Tracker \<Rightarrow> Tracker \<times> string list" where
  "check_locked rt now t =
     (case foldl (check_entry (idleThreshold t) (processCheck rt) now) (files t, []) (files t) of
        (fs, readyPaths) \<Rightarrow> (t\<lparr>files := fs\<rparr>, readyPaths))"

text \<open>
  \<^verbatim>\<open>check\<close>: the tracker after the sweep, the paths queued in \<^verbatim>\<open>readyPaths\<close>,
  and the arguments of the calls of \<^verbatim>\<open>onComplete\<close>, in order.
\<close>

definition check :: "runtime \<Rightarrow> Time \<Rightarrow> Tracker \<Rightarrow> Tracker \<times> string list \<times> CompletedSession list" where
  "check rt now t =
     (case check_locked rt now t of
        (t', readyPaths) \<Rightarrow> (t', readyPaths, List.map_filter (parseTranscript rt) readyPaths))"

subsection \<open>Histories of a tracker\<close>

datatype event = TouchEv string Time | SweepEv Time runtime

fun step :: "Tracker \<Rightarrow> event \<Rightarrow> Tracker \<times> string list \<times> CompletedSession list" where
  "step t (TouchEv p now) = (Touch t p now, [], [])"
| "step t (SweepEv now rt) = check rt now t"

fun run :: "Tracker \<Rightarrow> event list \<Rightarrow> Tracker \<times> string list \<times> CompletedSession list" where
  "run t [] = (t, [], [])"
| "run t (e # es) =
     (case step t e of (t1, r1, c1) \<Rightarrow>
        case run t1 es of (t2, r2, c2) \<Rightarrow> (t2, r1 @ r2, c1 @ c2))"

definition state_of :: "Tracker \<times> string list \<times> CompletedSession list \<Rightarrow> Tracker" where
  "state_of r = fst r"

definition queued :: "Tracker \<times> string list \<times> CompletedSession list \<Rightarrow> string list" where
  "queued r = fst (snd r)"

definition callbacks :: "Tracker \<times> string list \<times> CompletedSession list \<Rightarrow> CompletedSession list" where
  "callbacks r = snd (snd r)"

fun touches :: "string \<Rightarrow> event \<Rightarrow> bool" where
  "touches p (TouchEv q now) = (q = p)"
| "touches p (SweepEv now rt) = False"

text \<open>
  Both conditions of a completion hold at a sweep, for a path last written at \<open>lw\<close>:
  the idle time has reached the threshold and the oracle answers false.
\<close>

fun due :: "Duration \<Rightarrow> Time \<Rightarrow> string \<Rightarrow> event \<Rightarrow> bool" where
  "due thr lw p (TouchEv q now) = False"
| "due thr lw p (SweepEv now rt) = (thr \<le> Sub now lw \<and> \<not> processCheck rt p)"

fun oracle_live :: "string \<Rightarrow> event \<Rightarrow> bool" where
  "oracle_live p (TouchEv q now) = True"
| "oracle_live p (SweepEv now rt) = processCheck rt p"

text \<open>The clock never reads the zero Time.\<close>

fun clock_ok :: "event \<Rightarrow> bool" where
  "clock_ok (TouchEv p now) = (\<not> IsZero now)"
| "clock_ok (SweepEv now rt) = (\<not> IsZero now)"

subsection \<open>Start and Stop\<close>

text \<open>
  \<^verbatim>\<open>Stop\<close> is \<^verbatim>\<open>close(t.done)\<close>. Go panics on the close of a channel that is
  already closed.
\<close>

datatype fault = CloseOfClosedChannel

definition Stop :: "Tracker \<Rightarrow> fault + Tracker" where
  "Stop t =
     (case done_chan t of
        Closed \<Rightarrow> Inl CloseOfClosedChannel
      | Open \<Rightarrow> Inr (t\<lparr>done_chan := Closed\<rparr>))"

text \<open>
  The goroutine of \<^verbatim>\<open>Start\<close> and the goroutines that call the tracker, interleaved.
  A turn is one execution of the \<^verbatim>\<open>select\<close> of the loop, or a call of
  \<^verbatim>\<open>Stop\<close> or \<^verbatim>\<open>Touch\<close> from elsewhere. At a \<^verbatim>\<open>select\<close> the ticker's
  channel holds a tick or not (a tick comes with the clock reading and the surroundings
  of the sweep it starts); receiving from \<^verbatim>\<open>done\<close> is ready exactly when the
  channel is closed. When both cases are ready Go picks one at random: the flag of the
  turn is that pick (true for the \<^verbatim>\<open>done\<close> case). When no case is ready the
  goroutine stays blocked in the \<^verbatim>\<open>select\<close>, which has no default case. The
  counter \<open>sweeps\<close> counts the calls of \<^verbatim>\<open>check\<close>.
\<close>

datatype turn =
    AtSelect "(Time \<times> runtime) option" bool
  | CallStop
  | CallTouch string Time

datatype loop_state = Running | Returned

record system =
  tracker :: Tracker
  loop :: loop_state
  sweeps :: nat

definition Start_select :: "system \<Rightarrow> (Time \<times> runtime) option \<Rightarrow> bool \<Rightarrow> system" where
  "Start_select s tick pick_done =
     (case loop s of
        Returned \<Rightarrow> s
      | Running \<Rightarrow>
          (case tick of
             None \<Rightarrow>
               (case done_chan (tracker s) of
                  Open \<Rightarrow> s
                | Closed \<Rightarrow> s\<lparr>loop := Returned\<rparr>)
           | Some (now, rt) \<Rightarrow>
               if done_chan (tracker s) = Closed \<and> pick_done
               then s\<lparr>loop := Returned\<rparr>
               else s\<lparr>tracker := state_of (check rt now (tracker s)),
                       sweeps := Suc (sweeps s)\<rparr>))"

fun act :: "system \<Rightarrow> turn \<Rightarrow> fault + system" where
  "act s (AtSelect tick pick_done) = Inr (Start_select s tick pick_done)"
| "act s CallStop =
     (case Stop (tracker s) of Inl f \<Rightarrow> Inl f | Inr t \<Rightarrow> Inr (s\<lparr>tracker := t\<rparr>))"
| "act s (CallTouch p now) = Inr (s\<lparr>tracker := Touch (tracker s) p now\<rparr>)"

fun acts :: "system \<Rightarrow> turn list \<Rightarrow> fault + system" where
  "acts s [] = Inr s"
| "acts s (a # as) = (case act s a of Inl f \<Rightarrow> Inl f | Inr s' \<Rightarrow> acts s' as)"

text \<open>A turn at which the loop, with \<^verbatim>\<open>done\<close> closed, takes the \<^verbatim>\<open>done\<close> case.\<close>

fun takes_done :: "turn \<Rightarrow> bool" where
  "takes_done (AtSelect None pick_done) = True"
| "takes_done (AtSelect (Some tick) pick_done) = pick_done"
| "takes_done CallStop = False"
| "takes_done (CallTouch p now) = False"

fun is_select :: "turn \<Rightarrow> bool" where
  "is_select (AtSelect tick pick_done) = True"
| "is_select CallStop = False"
| "is_select (CallTouch p now) = False"

definition started :: "Tracker \<Rightarrow> system" where
  "started t = \<lparr>tracker = t, loop = Running, sweeps = 0\<rparr>"

subsection \<open>Views used in the statements\<close>

text \<open>The entries of the lines that decode, in the order of the file.\<close>

definition decode_line :: "line \<Rightarrow> jsonlLine option" where
  "decode_line l = (case l of JSON v \<Rightarrow> unmarshal_jsonlLine v | _ \<Rightarrow> None)"

definition entries :: "line list \<Rightarrow> jsonlLine list" where
  "entries ls = List.map_filter decode_line ls"

definition entry_time :: "(string \<Rightarrow> Time option) \<Rightarrow> jsonlLine \<Rightarrow> Time option" where
  "entry_time tparse e = (if jl_Timestamp e \<noteq> [] then tparse (jl_Timestamp e) else None)"

text \<open>The timestamps that parse, in the order of the file.\<close>

definition parsed_timestamps :: "(string \<Rightarrow> Time option) \<Rightarrow> line list \<Rightarrow> Time list" where
  "parsed_timestamps tparse ls = List.map_filter (entry_time tparse) (entries ls)"

definition first_nonempty :: "string list \<Rightarrow> string" where
  "first_nonempty xs = (case filter (\<lambda>s. s \<noteq> []) xs of [] \<Rightarrow> [] | s # _ \<Rightarrow> s)"

definition first_nonzero :: "Time list \<Rightarrow> Time" where
  "first_nonzero ts = (case filter (\<lambda>t. \<not> IsZero t) ts of [] \<Rightarrow> 0 | t # _ \<Rightarrow> t)"

text \<open>
  The canonical 8-4-4-4-12 grouping, as the specification words it: 36 characters,
  hyphens at positions 8, 13, 18 and 23, hexadecimal digits of either case elsewhere.
\<close>

definition spec_hex :: "char \<Rightarrow> bool" where
  "spec_hex c \<longleftrightarrow> c \<in> set ''0123456789abcdefABCDEF''"

definition canonical_uuid :: "string \<Rightarrow> bool" where
  "canonical_uuid s \<longleftrightarrow>
     length s = 36 \<and>
     (\<forall>i \<in> {0..<36}. if i \<in> {8, 13, 18, 23} then s ! i = CHR ''-'' else spec_hex (s ! i))"

definition trailing :: "nat \<Rightarrow> string \<Rightarrow> string" where
  "trailing n s = rev (take n (rev s))"

text \<open>The session identifier of a file name, as the specification words it.\<close>

definition spec_filename_id :: "string \<Rightarrow> string" where
  "spec_filename_id name =
     (if length name \<ge> 36 \<and> canonical_uuid (trailing 36 name) then trailing 36 name else name)"

text \<open>A line that decodes and whose top-level type is \<^verbatim>\<open>assistant\<close>.\<close>

definition assistant_tagged :: "line \<Rightarrow> bool" where
  "assistant_tagged l = (case decode_line l of None \<Rightarrow> False | Some e \<Rightarrow> jl_Type e = ''assistant'')"

text \<open>
  The path a content block contributes, and the paths a line contributes, in order: the
  conditions of \<^verbatim>\<open>extractFileChanges\<close> read as a list.
\<close>

definition block_path :: "contentBlock \<Rightarrow> string option" where
  "block_path b =
     (if cb_Type b = ''tool_use'' \<and> (cb_Name b = ''Write'' \<or> cb_Name b = ''Edit'')
      then (case unmarshal_toolInput (cb_Input b) of
              None \<Rightarrow> None
            | Some inp \<Rightarrow> if ti_FilePath inp \<noteq> [] then Some (ti_FilePath inp) else None)
      else None)"

definition value_paths :: "json \<Rightarrow> string list" where
  "value_paths v =
     (case unmarshal_msg v of
        None \<Rightarrow> []
      | Some m \<Rightarrow>
          if mc_Role m = ''assistant''
          then (case unmarshal_blocks (mc_Content m) of
                  None \<Rightarrow> []
                | Some bs \<Rightarrow> List.map_filter block_path bs)
          else [])"

definition line_paths :: "line \<Rightarrow> string list" where
  "line_paths l =
     (case l of
        JSON v \<Rightarrow> (case unmarshal_jsonlLine v of None \<Rightarrow> [] | Some e \<Rightarrow> value_paths v)
      | _ \<Rightarrow> [])"

text \<open>
  The duration as the specification words it: the greatest parsed timestamp minus the
  least, in milliseconds, and 0 when there is none.
\<close>

definition spec_durationMs :: "Time list \<Rightarrow> int" where
  "spec_durationMs ts = (if ts = [] then 0 else (Max (set ts) - Min (set ts)) div 1000000)"

subsection \<open>Views of the sweep used in the proofs\<close>

text \<open>
  What the loop of \<^verbatim>\<open>check\<close> does with one entry: it is evicted, or it completes
  (is marked reported and queued), or it is left as it is.
\<close>

definition evictable :: "Time \<Rightarrow> trackedFile \<Rightarrow> bool" where
  "evictable now tf \<longleftrightarrow>
     reported tf \<and> \<not> IsZero (reportedAt tf) \<and> cleanupGrace \<le> Sub now (reportedAt tf)"

definition completes :: "Duration \<Rightarrow> (string \<Rightarrow> bool) \<Rightarrow> Time \<Rightarrow> string \<Rightarrow> trackedFile \<Rightarrow> bool" where
  "completes thr live now p tf \<longleftrightarrow>
     \<not> reported tf \<and> thr \<le> Sub now (lastWrite tf) \<and> \<not> live p"

definition entry_after ::
    "Duration \<Rightarrow> (string \<Rightarrow> bool) \<Rightarrow> Time \<Rightarrow> string \<Rightarrow> trackedFile \<Rightarrow> trackedFile option" where
  "entry_after thr live now p tf =
     (if evictable now tf then None
      else if completes thr live now p tf then Some (tf\<lparr>reported := True, reportedAt := now\<rparr>)
      else Some tf)"

text \<open>No idle episode of the path is open: it is not tracked, or its entry is reported.\<close>

definition closed_at :: "Tracker \<Rightarrow> string \<Rightarrow> bool" where
  "closed_at t p \<longleftrightarrow> (case map_of (files t) p of None \<Rightarrow> True | Some tf \<Rightarrow> reported tf)"

text \<open>Every reported entry carries a report time other than the zero Time.\<close>

definition stamped :: "Tracker \<Rightarrow> bool" where
  "stamped t \<longleftrightarrow>
     (\<forall>p tf. map_of (files t) p = Some tf \<longrightarrow> reported tf \<longrightarrow> \<not> IsZero (reportedAt tf))"

subsection \<open>Sample transcripts\<close>

text \<open>
  The lines of the transcripts of the repository's tests, as JSON values, and a
  \<^typ>\<open>runtime\<close> that serves them. The timestamps are the instants the strings denote,
  in nanoseconds since the zero Time.
\<close>

definition summary_line :: "string \<Rightarrow> string \<Rightarrow> string \<Rightarrow> json" where
  "summary_line sid cwd ts = JObject
     [(''type'', JString ''summary''), (''sessionId'', JString sid), (''cwd'', JString cwd),
      (''timestamp'', JString ts)]"

definition tool_line :: "string \<Rightarrow> string \<Rightarrow> string \<Rightarrow> string \<Rightarrow> json" where
  "tool_line ty tool fp ts = JObject
     [(''type'', JString ty),
      (''message'', JObject
         [(''role'', JString ''assistant''),
          (''content'', JArray
             [JObject [(''type'', JString ''tool_use''), (''name'', JString tool),
                       (''input'', JObject [(''file_path'', JString fp)])]])]),
      (''timestamp'', JString ts)]"

definition text_line :: "string \<Rightarrow> string \<Rightarrow> string \<Rightarrow> json" where
  "text_line ty txt ts = JObject
     [(''type'', JString ty),
      (''message'', JObject
         [(''role'', JString ''assistant''),
          (''content'', JArray [JObject [(''type'', JString ''text''), (''text'', JString txt)]])]),
      (''timestamp'', JString ts)]"

definition user_line :: json where
  "user_line = JObject
     [(''type'', JString ''message''),
      (''message'', JObject [(''role'', JString ''user''), (''content'', JString ''hello'')]),
      (''timestamp'', JString ''2026-02-14T10:00:00Z'')]"

definition basic_transcript :: transcript where
  "basic_transcript =
     \<lparr>scanned =
        [JSON (summary_line ''cfa3335c-ea38-4cf8-a1f2-9e3cf9789708'' ''/home/mike/Warren''
                 ''2026-02-14T10:00:00Z''),
         JSON (tool_line ''message'' ''Write'' ''/home/mike/Warren/internal/api/health.go''
                 ''2026-02-14T10:01:00Z''),
         JSON (tool_line ''message'' ''Edit'' ''/home/mike/Warren/main.go''
                 ''2026-02-14T10:05:00Z''),
         JSON (text_line ''message'' ''Done!'' ''2026-02-14T10:06:00Z'')],
      scanErr = False\<rparr>"

definition fallback_transcript :: transcript where
  "fallback_transcript = \<lparr>scanned = [JSON user_line], scanErr = False\<rparr>"

definition reordered_transcript :: transcript where
  "reordered_transcript =
     \<lparr>scanned =
        [JSON (summary_line ''11111111-2222-3333-4444-555555555555'' ''/home/mike''
                 ''2026-02-14T10:05:00Z''),
         JSON (text_line ''assistant'' ''Hello!'' ''2026-02-14T10:00:00Z'')],
      scanErr = False\<rparr>"

definition empty_transcript :: transcript where
  "empty_transcript = \<lparr>scanned = [], scanErr = False\<rparr>"

definition ex_time_Parse :: "string \<Rightarrow> Time option" where
  "ex_time_Parse s =
     (if s = ''2026-02-14T10:00:00Z'' then Some 63906660000000000000
      else if s = ''2026-02-14T10:01:00Z'' then Some 63906660060000000000
      else if s = ''2026-02-14T10:05:00Z'' then Some 63906660300000000000
      else if s = ''2026-02-14T10:06:00Z'' then Some 63906660360000000000
      else None)"

definition ex_Open :: "string \<Rightarrow> transcript option" where
  "ex_Open p =
     (if p = ''/tmp/cfa3335c-ea38-4cf8-a1f2-9e3cf9789708.jsonl'' then Some basic_transcript
      else if p = ''/tmp/abcdef01-2345-6789-abcd-ef0123456789.jsonl'' then Some fallback_transcript
      else if p = ''/tmp/11111111-2222-3333-4444-555555555555.jsonl'' then Some reordered_transcript
      else if p = ''/tmp/.jsonl'' then Some empty_transcript
      else None)"

definition ex_rt :: runtime where
  "ex_rt =
     \<lparr>os_Open = ex_Open, time_Parse = ex_time_Parse, range_keys = (\<lambda>ks. ks),
      processCheck = (\<lambda>p. False)\<rparr>"

text \<open>The same surroundings, with the map's keys visited in the opposite order.\<close>

definition ex_rt_rev :: runtime where
  "ex_rt_rev = ex_rt\<lparr>range_keys := rev\<rparr>"

subsection \<open>Sample histories\<close>

text \<open>
  The surroundings with a live owning process, and with no file to open; a tracker with
  the default thresholds; a path written at \<open>t0\<close> (2026-02-14T10:06:00Z).
\<close>

definition ex_rt_live :: runtime where
  "ex_rt_live = ex_rt\<lparr>processCheck := (\<lambda>p. True)\<rparr>"

definition ex_rt_gone :: runtime where
  "ex_rt_gone = ex_rt\<lparr>os_Open := (\<lambda>p. None)\<rparr>"

definition Second :: Duration where
  "Second = 1000000000"

definition t0 :: Time where
  "t0 = 63906660360000000000"

definition ex_tracker :: Tracker where
  "ex_tracker = NewTracker (10 * Second) (15 * Second)"

definition ex_path :: string where
  "ex_path = ''/tmp/cfa3335c-ea38-4cf8-a1f2-9e3cf9789708.jsonl''"

definition ex_before :: "event list" where
  "ex_before = [SweepEv (t0 + 5 * Second) ex_rt, SweepEv (t0 + 20 * Second) ex_rt_live]"

definition ex_after :: "event list" where
  "ex_after = [SweepEv (t0 + 50 * Second) ex_rt, TouchEv ''/tmp/other.jsonl'' (t0 + 60 * Second),
               SweepEv (t0 + 65 * Second) ex_rt]"

text \<open>The entry of the sample path after its first \<^verbatim>\<open>Touch\<close>.\<close>

definition ex_entry :: trackedFile where
  "ex_entry = \<lparr>path = ex_path, lastWrite = t0, reported = False, reportedAt = 0\<rparr>"

section \<open>Properties\<close>


subsection \<open>The scan loop, field by field\<close>

lemma entries_Nil [simp]: "entries [] = []"
  by (simp add: entries_def map_filter_simps)

lemma entries_Cons: "entries (l # ls) = (case decode_line l of None \<Rightarrow> entries ls | Some e \<Rightarrow> e # entries ls)"
  by (simp add: entries_def map_filter_simps split: option.splits)

lemma scan_line_skip: "decode_line l = None \<Longrightarrow> scan_line tp st l = st"
  by (auto simp: scan_line_def decode_line_def split: line.splits)

lemma scan_line_sessionID:
  "decode_line l = Some e \<Longrightarrow>
   sessionID (scan_line tp st l) =
     (if jl_SessionID e \<noteq> [] \<and> sessionID st = [] then jl_SessionID e else sessionID st)"
  by (auto simp: scan_line_def decode_line_def Let_def take_sessionID_def take_workingDir_def
      take_timestamp_def take_assistant_def split: line.splits option.splits)

lemma scan_line_hasAssistant:
  "decode_line l = Some e \<Longrightarrow>
   hasAssistantMsg (scan_line tp st l) = (hasAssistantMsg st \<or> jl_Type e = ''assistant'')"
  by (auto simp: scan_line_def decode_line_def Let_def take_sessionID_def take_workingDir_def
      take_timestamp_def take_assistant_def split: line.splits option.splits)

lemma scan_line_lastTS:
  "decode_line l = Some e \<Longrightarrow>
   lastTS (scan_line tp st l) = (case entry_time tp e of None \<Rightarrow> lastTS st | Some ts \<Rightarrow> ts)"
  by (auto simp: scan_line_def decode_line_def Let_def take_sessionID_def take_workingDir_def
      take_timestamp_def take_assistant_def entry_time_def split: line.splits option.splits)

lemma scan_line_firstTS:
  "decode_line l = Some e \<Longrightarrow>
   firstTS (scan_line tp st l) =
     (case entry_time tp e of None \<Rightarrow> firstTS st
      | Some ts \<Rightarrow> if IsZero (firstTS st) then ts else firstTS st)"
  by (auto simp: scan_line_def decode_line_def Let_def take_sessionID_def take_workingDir_def
      take_timestamp_def take_assistant_def entry_time_def split: line.splits option.splits)

lemma scan_line_workingDir:
  "decode_line l = Some e \<Longrightarrow>
   workingDir (scan_line tp st l) =
     (if jl_CWD e \<noteq> [] \<and> workingDir st = [] then jl_CWD e else workingDir st)"
  by (auto simp: scan_line_def decode_line_def Let_def take_sessionID_def take_workingDir_def
      take_timestamp_def take_assistant_def split: line.splits option.splits)

lemma scan_line_filesChanged:
  "filesChanged (scan_line tp st l) =
     (case l of JSON v \<Rightarrow> (case unmarshal_jsonlLine v of None \<Rightarrow> filesChanged st
                            | Some e \<Rightarrow> extractFileChanges v (filesChanged st))
      | _ \<Rightarrow> filesChanged st)"
  by (auto simp: scan_line_def decode_line_def Let_def take_sessionID_def take_workingDir_def
      take_timestamp_def take_assistant_def split: line.splits option.splits)

lemma fold_sessionID:
  "sessionID (foldl (scan_line tp) st ls) =
     (if sessionID st \<noteq> [] then sessionID st
      else first_nonempty (map jl_SessionID (entries ls)))"
proof (induction ls arbitrary: st)
  case Nil then show ?case by (simp add: first_nonempty_def)
next
  case (Cons l ls)
  show ?case
  proof (cases "decode_line l")
    case None
    then show ?thesis by (simp add: Cons.IH scan_line_skip entries_Cons)
  next
    case (Some e)
    then show ?thesis
      by (simp add: Cons.IH scan_line_sessionID entries_Cons first_nonempty_def)
  qed
qed

lemma fold_hasAssistant:
  "hasAssistantMsg (foldl (scan_line tp) st ls) =
     (hasAssistantMsg st \<or> (\<exists>e \<in> set (entries ls). jl_Type e = ''assistant''))"
proof (induction ls arbitrary: st)
  case Nil then show ?case by simp
next
  case (Cons l ls)
  show ?case
  proof (cases "decode_line l")
    case None
    then show ?thesis by (simp add: Cons.IH scan_line_skip entries_Cons)
  next
    case (Some e)
    then show ?thesis
      by (auto simp add: Cons.IH scan_line_hasAssistant entries_Cons)
  qed
qed

lemma parsed_timestamps_Nil [simp]: "parsed_timestamps tp [] = []"
  by (simp add: parsed_timestamps_def map_filter_simps)

lemma parsed_timestamps_Cons:
  "parsed_timestamps tp (l # ls) =
     (case decode_line l of None \<Rightarrow> parsed_timestamps tp ls
      | Some e \<Rightarrow> (case entry_time tp e of None \<Rightarrow> parsed_timestamps tp ls
                    | Some ts \<Rightarrow> ts # parsed_timestamps tp ls))"
  by (simp add: parsed_timestamps_def entries_Cons map_filter_simps split: option.splits)

lemma fold_lastTS:
  "lastTS (foldl (scan_line tp) st ls) =
     (if parsed_timestamps tp ls = [] then lastTS st else last (parsed_timestamps tp ls))"
proof (induction ls arbitrary: st)
  case Nil then show ?case by simp
next
  case (Cons l ls)
  show ?case
  proof (cases "decode_line l")
    case None
    then show ?thesis by (simp add: Cons.IH scan_line_skip parsed_timestamps_Cons)
  next
    case (Some e)
    then show ?thesis
      by (simp add: Cons.IH scan_line_lastTS parsed_timestamps_Cons split: option.splits)
  qed
qed

lemma fold_firstTS:
  "firstTS (foldl (scan_line tp) st ls) =
     (if \<not> IsZero (firstTS st) then firstTS st else first_nonzero (parsed_timestamps tp ls))"
proof (induction ls arbitrary: st)
  case Nil then show ?case by (simp add: first_nonzero_def IsZero_def)
next
  case (Cons l ls)
  show ?case
  proof (cases "decode_line l")
    case None
    then show ?thesis by (simp add: Cons.IH scan_line_skip parsed_timestamps_Cons)
  next
    case (Some e)
    then show ?thesis
      by (simp add: Cons.IH scan_line_firstTS parsed_timestamps_Cons first_nonzero_def
          split: option.splits)
  qed
qed


subsection \<open>The session identifier\<close>

lemma split_Suc: "(\<forall>j < Suc n. P j) \<longleftrightarrow> P 0 \<and> (\<forall>j < n. P (Suc j))"
  by (auto simp: less_Suc_eq_0_disj)

lemma isUUIDLike_loop_iff:
  "isUUIDLike_loop i s \<longleftrightarrow>
   (\<forall>j < length s. if i + j \<in> {8, 13, 18, 23} then s ! j = CHR ''-'' else isHexDigit (s ! j))"
proof (induction s arbitrary: i)
  case Nil then show ?case by simp
next
  case (Cons c cs)
  show ?case
    unfolding isUUIDLike_loop.simps length_Cons split_Suc Cons.IH
    by auto
qed

lemma spec_hex_imp: "spec_hex c \<Longrightarrow> isHexDigit c"
  unfolding spec_hex_def by (auto simp: isHexDigit_def)

lemma isHexDigit_imp:
  assumes "isHexDigit c"
  shows "spec_hex c"
proof -
  let ?n = "of_char c :: nat"
  from assms have "?n \<in> {48..57} \<or> ?n \<in> {97..102} \<or> ?n \<in> {65..70}"
    by (simp add: isHexDigit_def)
  then have "?n \<in> {48, 49, 50, 51, 52, 53, 54, 55, 56, 57, 97, 98, 99, 100, 101, 102,
                    65, 66, 67, 68, 69, 70}"
    by (simp only: atLeastAtMost_iff insert_iff empty_iff) arith
  then have "?n \<in> of_char ` set ''0123456789abcdefABCDEF''"
    by simp
  then obtain d where d: "d \<in> set ''0123456789abcdefABCDEF''" "?n = of_char d"
    by blast
  from d(2) have "c = d" by simp
  with d(1) show ?thesis by (simp add: spec_hex_def)
qed

lemma isHexDigit_spec: "isHexDigit c \<longleftrightarrow> spec_hex c"
  using spec_hex_imp isHexDigit_imp by blast

lemma isUUIDLike_canonical: "isUUIDLike s \<longleftrightarrow> canonical_uuid s"
proof (cases "length s = 36")
  case True
  have "isUUIDLike s \<longleftrightarrow>
        (\<forall>j < 36. if j \<in> {8, 13, 18, 23} then s ! j = CHR ''-'' else spec_hex (s ! j))"
    unfolding isUUIDLike_def isUUIDLike_loop_iff isHexDigit_spec True by simp
  also have "\<dots> \<longleftrightarrow> canonical_uuid s"
    unfolding canonical_uuid_def Ball_def atLeastLessThan_iff using True by simp
  finally show ?thesis .
next
  case False
  then show ?thesis by (simp add: isUUIDLike_def canonical_uuid_def)
qed

lemma trailing_drop: "n \<le> length s \<Longrightarrow> trailing n s = drop (length s - n) s"
  by (simp add: trailing_def take_rev)

lemma extract_is_spec:
  "extractSessionIDFromPath p = spec_filename_id (TrimSuffix (Base p) ''.jsonl'')"
proof (cases "36 \<le> length (TrimSuffix (Base p) ''.jsonl'')")
  case True
  then show ?thesis
    by (simp add: extractSessionIDFromPath_def spec_filename_id_def Let_def
        trailing_drop[OF True] isUUIDLike_canonical)
next
  case False
  then show ?thesis
    by (simp add: extractSessionIDFromPath_def spec_filename_id_def Let_def)
qed

lemma parse_sessionID:
  assumes "os_Open rt p = Some f"
  shows "map_option SessionID (parseTranscript rt p) =
     (let sid = (if first_nonempty (map jl_SessionID (entries (scanned f))) = []
                 then extractSessionIDFromPath p
                 else first_nonempty (map jl_SessionID (entries (scanned f))))
      in if sid = [] then None else Some sid)"
  using assms
  by (simp add: parseTranscript_def build_def scan_all_def fold_sessionID init_state_def Let_def)

lemma first_nonempty_none: "(\<forall>s \<in> set xs. s = []) \<Longrightarrow> first_nonempty xs = []"
  by (simp add: first_nonempty_def filter_False split: list.splits)

text \<open>
  Claim C4. When no line of the file that decodes carries a non-empty \<^verbatim>\<open>sessionId\<close>,
  the session identifier comes from the file name: with the suffix \<^verbatim>\<open>.jsonl\<close>
  stripped from the base name, the trailing 36 characters are the identifier if the name
  has at least 36 characters and they form the canonical 8-4-4-4-12 grouping; otherwise
  the whole remaining name is the identifier, verbatim. The parser returns a session
  with that identifier, and no session when the identifier is empty.
\<close>

theorem session_id_falls_back_to_filename:
  assumes "os_Open rt p = Some f"
    and "\<forall>e \<in> set (entries (scanned f)). jl_SessionID e = []"
  shows "extractSessionIDFromPath p = spec_filename_id (TrimSuffix (Base p) ''.jsonl'') \<and>
         map_option SessionID (parseTranscript rt p) =
           (if spec_filename_id (TrimSuffix (Base p) ''.jsonl'') = [] then None
            else Some (spec_filename_id (TrimSuffix (Base p) ''.jsonl'')))"
proof -
  from assms(2) have "first_nonempty (map jl_SessionID (entries (scanned f))) = []"
    by (intro first_nonempty_none) auto
  with parse_sessionID[OF assms(1)] extract_is_spec[of p] show ?thesis
    by (simp add: Let_def)
qed

theorem session_id_falls_back_to_filename_witness:
  "os_Open ex_rt ''/tmp/abcdef01-2345-6789-abcd-ef0123456789.jsonl'' = Some fallback_transcript \<and>
   map jl_SessionID (entries (scanned fallback_transcript)) = [[]] \<and>
   map_option SessionID
       (parseTranscript ex_rt ''/tmp/abcdef01-2345-6789-abcd-ef0123456789.jsonl'') =
     Some ''abcdef01-2345-6789-abcd-ef0123456789''"
proof -
  have h1: "os_Open ex_rt ''/tmp/abcdef01-2345-6789-abcd-ef0123456789.jsonl'' =
     Some fallback_transcript"
    by (simp add: ex_rt_def ex_Open_def)
  have ids: "map jl_SessionID (entries (scanned fallback_transcript)) = [[]]"
    by code_simp
  have "set (map jl_SessionID (entries (scanned fallback_transcript))) = {[]}"
    by (simp only: ids) simp
  then have h2: "\<forall>e \<in> set (entries (scanned fallback_transcript)). jl_SessionID e = []"
    by auto
  have v: "spec_filename_id
             (TrimSuffix (Base ''/tmp/abcdef01-2345-6789-abcd-ef0123456789.jsonl'') ''.jsonl'') =
           ''abcdef01-2345-6789-abcd-ef0123456789''"
    by code_simp
  from session_id_falls_back_to_filename[OF h1 h2] h1 ids v show ?thesis
    by simp
qed

subsection \<open>The exit code\<close>

lemma assistant_tagged_iff:
  "(\<exists>e \<in> set (entries ls). jl_Type e = ''assistant'') \<longleftrightarrow> (\<exists>l \<in> set ls. assistant_tagged l)"
  by (induction ls) (auto simp: entries_Cons assistant_tagged_def split: option.splits)

lemma parse_Some:
  assumes "parseTranscript rt p = Some s"
  obtains f where "os_Open rt p = Some f" "build rt p (scan_all (time_Parse rt) (scanned f)) = Some s"
  using assms by (auto simp: parseTranscript_def split: option.splits)

lemma build_ExitCode:
  "build rt p st = Some s \<Longrightarrow> ExitCode s = (if hasAssistantMsg st then 0 else 1)"
  by (auto simp: build_def Let_def split: if_splits)

lemma scan_all_hasAssistant:
  "hasAssistantMsg (scan_all tp ls) \<longleftrightarrow> (\<exists>l \<in> set ls. assistant_tagged l)"
  by (simp add: scan_all_def fold_hasAssistant init_state_def assistant_tagged_iff)

text \<open>
  Claim C6. A line is tagged as an assistant message when it decodes and its top-level
  \<^verbatim>\<open>type\<close> is \<^verbatim>\<open>assistant\<close>. Over the lines the scanner delivers,
  the exit code of the returned session is 1 exactly when no line is tagged so, 0 exactly
  when some line is, and never anything else.
\<close>

theorem exit_code_one_iff_no_assistant_line:
  assumes "os_Open rt p = Some f" and "parseTranscript rt p = Some s"
  shows "(ExitCode s = 1 \<longleftrightarrow> \<not> (\<exists>l \<in> set (scanned f). assistant_tagged l)) \<and>
         (ExitCode s = 0 \<longleftrightarrow> (\<exists>l \<in> set (scanned f). assistant_tagged l)) \<and>
         (ExitCode s = 0 \<or> ExitCode s = 1)"
proof -
  from assms have "build rt p (scan_all (time_Parse rt) (scanned f)) = Some s"
    by (simp add: parseTranscript_def)
  from build_ExitCode[OF this] show ?thesis
    by (simp add: scan_all_hasAssistant)
qed

theorem exit_code_one_iff_no_assistant_line_witness:
  "os_Open ex_rt ''/tmp/11111111-2222-3333-4444-555555555555.jsonl'' = Some reordered_transcript \<and>
   map_option ExitCode (parseTranscript ex_rt ''/tmp/11111111-2222-3333-4444-555555555555.jsonl'') = Some 0 \<and>
   map assistant_tagged (scanned reordered_transcript) = [False, True]"
proof -
  have h1: "os_Open ex_rt ''/tmp/11111111-2222-3333-4444-555555555555.jsonl'' = Some reordered_transcript"
    by (simp add: ex_rt_def ex_Open_def)
  have tags: "map assistant_tagged (scanned reordered_transcript) = [False, True]"
    by code_simp
  have "\<exists>l \<in> set (scanned reordered_transcript). assistant_tagged l"
  proof -
    have "True \<in> set (map assistant_tagged (scanned reordered_transcript))"
      by (simp only: tags) simp
    then show ?thesis by auto
  qed
  moreover obtain s where s: "parseTranscript ex_rt ''/tmp/11111111-2222-3333-4444-555555555555.jsonl'' = Some s"
  proof -
    have "parseTranscript ex_rt ''/tmp/11111111-2222-3333-4444-555555555555.jsonl'' \<noteq> None"
      by code_simp
    then show ?thesis using that by blast
  qed
  ultimately have "ExitCode s = 0"
    using exit_code_one_iff_no_assistant_line[OF h1 s] by simp
  with h1 s tags show ?thesis by simp
qed


subsection \<open>Absent results\<close>

lemma first_nonempty_empty_iff: "first_nonempty xs = [] \<longleftrightarrow> (\<forall>s \<in> set xs. s = [])"
proof (induction xs)
  case Nil then show ?case by (simp add: first_nonempty_def)
next
  case (Cons x xs)
  then show ?case by (cases "x = []") (simp_all add: first_nonempty_def)
qed

lemma build_None_iff:
  "build rt p st = None \<longleftrightarrow> sessionID st = [] \<and> extractSessionIDFromPath p = []"
  by (simp add: build_def Let_def)

lemma build_SessionID: "build rt p st = Some s \<Longrightarrow> SessionID s \<noteq> []"
  by (auto simp: build_def Let_def split: if_splits)

lemma scan_all_sessionID:
  "sessionID (scan_all tp ls) = first_nonempty (map jl_SessionID (entries ls))"
  by (simp add: scan_all_def fold_sessionID init_state_def)

text \<open>
  Claim C7. The parser returns no session exactly when the file cannot be opened, or
  when no line that decodes carries a non-empty \<^verbatim>\<open>sessionId\<close> and the file
  name gives the empty identifier. Every session it returns has a non-empty identifier.
  A scan error changes nothing: the session is built from the lines delivered before it.
\<close>

theorem absent_result_iff_unopened_or_no_session_id:
  "(parseTranscript rt p = None \<longleftrightarrow>
      (os_Open rt p = None \<or>
       (\<exists>f. os_Open rt p = Some f \<and>
            (\<forall>e \<in> set (entries (scanned f)). jl_SessionID e = []) \<and>
            extractSessionIDFromPath p = []))) \<and>
   (\<forall>s. parseTranscript rt p = Some s \<longrightarrow> SessionID s \<noteq> []) \<and>
   (\<forall>f b. os_Open rt p = Some f \<longrightarrow>
        parseTranscript (rt\<lparr>os_Open := (os_Open rt)(p \<mapsto> f\<lparr>scanErr := b\<rparr>)\<rparr>) p =
        parseTranscript rt p)"
proof (cases "os_Open rt p")
  case None
  then show ?thesis by (simp add: parseTranscript_def)
next
  case (Some f)
  have "(\<forall>e \<in> set (entries (scanned f)). jl_SessionID e = []) \<longleftrightarrow>
        sessionID (scan_all (time_Parse rt) (scanned f)) = []"
    by (simp add: scan_all_sessionID first_nonempty_empty_iff)
  moreover have "\<And>b. build (rt\<lparr>os_Open := (os_Open rt)(p \<mapsto> f\<lparr>scanErr := b\<rparr>)\<rparr>) p =
                      build rt p"
    by (rule ext) (simp add: build_def Let_def)
  ultimately show ?thesis using Some
    by (auto simp: parseTranscript_def build_None_iff dest: build_SessionID)
qed

theorem absent_result_iff_unopened_or_no_session_id_witness:
  "os_Open ex_rt ''/tmp/.jsonl'' = Some empty_transcript \<and>
   entries (scanned empty_transcript) = [] \<and>
   extractSessionIDFromPath ''/tmp/.jsonl'' = [] \<and>
   parseTranscript ex_rt ''/tmp/.jsonl'' = None \<and>
   os_Open ex_rt ''/nonexistent/file.jsonl'' = None \<and>
   parseTranscript ex_rt ''/nonexistent/file.jsonl'' = None"
proof -
  have h1: "os_Open ex_rt ''/tmp/.jsonl'' = Some empty_transcript"
    by (simp add: ex_rt_def ex_Open_def)
  have h2: "entries (scanned empty_transcript) = []"
    by (simp add: empty_transcript_def)
  have h3: "extractSessionIDFromPath ''/tmp/.jsonl'' = []"
    by code_simp
  have h4: "os_Open ex_rt ''/nonexistent/file.jsonl'' = None"
    by (simp add: ex_rt_def ex_Open_def)
  from h1 h2 h3 absent_result_iff_unopened_or_no_session_id[of ex_rt "''/tmp/.jsonl''"]
  have a: "parseTranscript ex_rt ''/tmp/.jsonl'' = None"
    by simp
  from h4 absent_result_iff_unopened_or_no_session_id[of ex_rt "''/nonexistent/file.jsonl''"]
  have b: "parseTranscript ex_rt ''/nonexistent/file.jsonl'' = None"
    by simp
  from h1 h2 h3 h4 a b show ?thesis by simp
qed

subsection \<open>The duration\<close>

lemma build_DurationMs:
  "build rt p st = Some s \<Longrightarrow>
   DurationMs s =
     (if \<not> IsZero (firstTS st) \<and> \<not> IsZero (lastTS st)
      then Milliseconds (Sub (lastTS st) (firstTS st)) else 0)"
  by (auto simp: build_def Let_def split: if_splits)

lemma scan_all_firstTS:
  "firstTS (scan_all tp ls) = first_nonzero (parsed_timestamps tp ls)"
  by (simp add: scan_all_def fold_firstTS init_state_def IsZero_def)

lemma scan_all_lastTS:
  "lastTS (scan_all tp ls) =
     (if parsed_timestamps tp ls = [] then 0 else last (parsed_timestamps tp ls))"
  by (simp add: scan_all_def fold_lastTS init_state_def)

lemma first_nonzero_hd: "ts \<noteq> [] \<Longrightarrow> 0 \<notin> set ts \<Longrightarrow> first_nonzero ts = hd ts"
  by (cases ts) (auto simp: first_nonzero_def IsZero_def)

lemma first_nonzero_cases: "first_nonzero ts = 0 \<or> first_nonzero ts \<in> set ts"
proof (induction ts)
  case Nil then show ?case by (simp add: first_nonzero_def)
next
  case (Cons t ts)
  then show ?case by (cases "IsZero t") (auto simp: first_nonzero_def)
qed

lemma Sub_self [simp]: "Sub t t = 0"
  by (simp add: Sub_def maxDuration_def minDuration_def)

lemma Sub_nonneg: "u \<le> t \<Longrightarrow> 0 \<le> Sub t u"
  by (simp add: Sub_def maxDuration_def minDuration_def)

lemma Milliseconds_0 [simp]: "Milliseconds 0 = 0"
  by (simp add: Milliseconds_def signed_divide_int_def)

lemma Milliseconds_nonneg: "0 \<le> d \<Longrightarrow> 0 \<le> Milliseconds d"
  by (simp add: Milliseconds_def signed_divide_int_def sgn_if pos_imp_zdiv_nonneg_iff)

lemma sorted_hd_is_Min: "sorted ts \<Longrightarrow> ts \<noteq> [] \<Longrightarrow> hd ts = Min (set ts)"
  by (cases ts) (auto intro!: Min_eqI[symmetric])

lemma sorted_last_is_Max: "sorted ts \<Longrightarrow> ts \<noteq> [] \<Longrightarrow> last ts = Max (set ts)"
proof (induction ts)
  case Nil then show ?case by simp
next
  case (Cons t ts)
  show ?case
  proof (cases "ts = []")
    case True then show ?thesis by simp
  next
    case False
    with Cons have "last ts = Max (set ts)" by simp
    moreover from Cons.prems False have "t \<le> Max (set ts)"
      by (metis List.finite_set Max_ge_iff last_in_set calculation set_empty sorted_simps(2))
    ultimately show ?thesis using False by (simp add: max_def)
  qed
qed

lemma parse_DurationMs:
  assumes "os_Open rt p = Some f" and "parseTranscript rt p = Some s"
  shows "DurationMs s =
     (let ts = parsed_timestamps (time_Parse rt) (scanned f) in
      if ts \<noteq> [] \<and> \<not> IsZero (first_nonzero ts) \<and> \<not> IsZero (last ts)
      then Milliseconds (Sub (last ts) (first_nonzero ts)) else 0)"
proof -
  from assms have "build rt p (scan_all (time_Parse rt) (scanned f)) = Some s"
    by (simp add: parseTranscript_def)
  from build_DurationMs[OF this] show ?thesis
    by (auto simp: scan_all_firstTS scan_all_lastTS Let_def first_nonzero_def IsZero_def)
qed

text \<open>
  Claim C3, amended. The duration is the last parsed timestamp minus the first, in the
  order of the file, taken with \<^verbatim>\<open>Time.Sub\<close> and \<^verbatim>\<open>Milliseconds\<close>, for a
  file none of whose timestamps is the zero Time. It is 0 when fewer than two distinct
  timestamps parse. When the timestamps stand in non-decreasing order it is the greatest
  minus the least, and not negative.
\<close>

theorem duration_is_last_minus_first:
  assumes "os_Open rt p = Some f" and "parseTranscript rt p = Some s"
  shows "(parsed_timestamps (time_Parse rt) (scanned f) \<noteq> [] \<and>
          0 \<notin> set (parsed_timestamps (time_Parse rt) (scanned f)) \<longrightarrow>
            DurationMs s =
              Milliseconds (Sub (last (parsed_timestamps (time_Parse rt) (scanned f)))
                                (hd (parsed_timestamps (time_Parse rt) (scanned f))))) \<and>
         (card (set (parsed_timestamps (time_Parse rt) (scanned f))) < 2 \<longrightarrow> DurationMs s = 0) \<and>
         (parsed_timestamps (time_Parse rt) (scanned f) \<noteq> [] \<and>
          0 \<notin> set (parsed_timestamps (time_Parse rt) (scanned f)) \<and>
          sorted (parsed_timestamps (time_Parse rt) (scanned f)) \<longrightarrow>
            DurationMs s =
              Milliseconds (Sub (Max (set (parsed_timestamps (time_Parse rt) (scanned f))))
                                (Min (set (parsed_timestamps (time_Parse rt) (scanned f))))) \<and>
            0 \<le> DurationMs s)"
proof -
  define ts where "ts = parsed_timestamps (time_Parse rt) (scanned f)"
  have D: "DurationMs s =
     (if ts \<noteq> [] \<and> \<not> IsZero (first_nonzero ts) \<and> \<not> IsZero (last ts)
      then Milliseconds (Sub (last ts) (first_nonzero ts)) else 0)"
    using parse_DurationMs[OF assms] by (simp add: ts_def Let_def)
  have A: "DurationMs s = Milliseconds (Sub (last ts) (hd ts))" if "ts \<noteq> []" "0 \<notin> set ts"
  proof -
    from that have "first_nonzero ts = hd ts" by (rule first_nonzero_hd)
    moreover from that have "hd ts \<noteq> 0" "last ts \<noteq> 0"
      by (metis hd_in_set, metis last_in_set)
    ultimately show ?thesis using that D by (simp add: IsZero_def)
  qed
  have B: "DurationMs s = 0" if "card (set ts) < 2"
  proof (cases "ts \<noteq> [] \<and> \<not> IsZero (first_nonzero ts) \<and> \<not> IsZero (last ts)")
    case True
    then have "first_nonzero ts \<in> set ts" "last ts \<in> set ts"
      using first_nonzero_cases[of ts] by (auto simp: IsZero_def)
    moreover from that have "card (set ts) \<le> Suc 0" by simp
    then have "\<forall>a \<in> set ts. \<forall>b \<in> set ts. a = b"
      by (simp add: card_le_Suc0_iff_eq)
    ultimately have "first_nonzero ts = last ts" by blast
    with D True show ?thesis by simp
  next
    case False
    with D show ?thesis by auto
  qed
  have C: "DurationMs s = Milliseconds (Sub (Max (set ts)) (Min (set ts))) \<and> 0 \<le> DurationMs s"
    if "ts \<noteq> []" "0 \<notin> set ts" "sorted ts"
  proof -
    from that have hm: "hd ts = Min (set ts)" "last ts = Max (set ts)"
      by (simp_all add: sorted_hd_is_Min sorted_last_is_Max)
    from that(1) have "Min (set ts) \<le> Max (set ts)" by simp
    then have "0 \<le> Milliseconds (Sub (Max (set ts)) (Min (set ts)))"
      by (intro Milliseconds_nonneg Sub_nonneg)
    with A[OF that(1,2)] hm show ?thesis by simp
  qed
  from A B C show ?thesis unfolding ts_def by blast
qed

theorem duration_is_last_minus_first_witness:
  "os_Open ex_rt ''/tmp/cfa3335c-ea38-4cf8-a1f2-9e3cf9789708.jsonl'' = Some basic_transcript \<and>
   parsed_timestamps (time_Parse ex_rt) (scanned basic_transcript) =
     [63906660000000000000, 63906660060000000000, 63906660300000000000, 63906660360000000000] \<and>
   map_option DurationMs (parseTranscript ex_rt ''/tmp/cfa3335c-ea38-4cf8-a1f2-9e3cf9789708.jsonl'') =
     Some 360000"
proof -
  have h1: "os_Open ex_rt ''/tmp/cfa3335c-ea38-4cf8-a1f2-9e3cf9789708.jsonl'' = Some basic_transcript"
    by (simp add: ex_rt_def ex_Open_def)
  have ts: "parsed_timestamps (time_Parse ex_rt) (scanned basic_transcript) =
     [63906660000000000000, 63906660060000000000, 63906660300000000000, 63906660360000000000]"
    by code_simp
  obtain s where s: "parseTranscript ex_rt ''/tmp/cfa3335c-ea38-4cf8-a1f2-9e3cf9789708.jsonl'' = Some s"
  proof -
    have "parseTranscript ex_rt ''/tmp/cfa3335c-ea38-4cf8-a1f2-9e3cf9789708.jsonl'' \<noteq> None"
      by code_simp
    then show ?thesis using that by blast
  qed
  have m: "Milliseconds (Sub 63906660360000000000 63906660000000000000) = 360000"
    by code_simp
  from duration_is_last_minus_first[OF h1 s] have "DurationMs s = 360000"
    by (simp add: ts m)
  with h1 ts s show ?thesis by simp
qed

text \<open>
  Claim C3 as stated fails: a file whose second timestamp is five minutes before its
  first has the duration -300000, where the greatest minus the least is 300000.
\<close>

theorem duration_negative_counterexample:
  "map_option DurationMs
       (parseTranscript ex_rt ''/tmp/11111111-2222-3333-4444-555555555555.jsonl'') =
     Some (- 300000) \<and>
   parsed_timestamps (time_Parse ex_rt) (scanned reordered_transcript) =
     [63906660300000000000, 63906660000000000000] \<and>
   spec_durationMs [63906660300000000000, 63906660000000000000] = 300000"
proof -
  have a: "map_option DurationMs
       (parseTranscript ex_rt ''/tmp/11111111-2222-3333-4444-555555555555.jsonl'') =
     Some (- 300000)"
    by code_simp
  have b: "parsed_timestamps (time_Parse ex_rt) (scanned reordered_transcript) =
     [63906660300000000000, 63906660000000000000]"
    by code_simp
  have c: "spec_durationMs [63906660300000000000, 63906660000000000000] = 300000"
    by (simp add: spec_durationMs_def)
  from a b c show ?thesis by simp
qed

subsection \<open>The files changed\<close>

lemma set_setKey [simp]: "set (setKey k ks) = insert k (set ks)"
  by (auto simp: setKey_def)

lemma distinct_setKey [simp]: "distinct (setKey k ks) = distinct ks"
  by (auto simp: setKey_def)

lemma block_step_path:
  "block_step fs b = (case block_path b of None \<Rightarrow> fs | Some k \<Rightarrow> setKey k fs)"
  by (auto simp: block_step_def block_path_def split: option.splits)

lemma foldl_block_step:
  "set (foldl block_step fs bs) = set fs \<union> set (List.map_filter block_path bs) \<and>
   distinct (foldl block_step fs bs) = distinct fs"
proof (induction bs arbitrary: fs)
  case Nil then show ?case by (simp add: map_filter_simps)
next
  case (Cons b bs)
  have "set (foldl block_step fs (b # bs)) =
          set (block_step fs b) \<union> set (List.map_filter block_path bs)"
       "distinct (foldl block_step fs (b # bs)) = distinct (block_step fs b)"
    using Cons.IH[of "block_step fs b"] by simp_all
  moreover have "set (block_step fs b) \<union> set (List.map_filter block_path bs) =
                 set fs \<union> set (List.map_filter block_path (b # bs))"
    by (cases "block_path b") (auto simp: block_step_path map_filter_simps)
  moreover have "distinct (block_step fs b) = distinct fs"
    by (cases "block_path b") (auto simp: block_step_path)
  ultimately show ?case by simp
qed

lemma set_foldl_block_step:
  "set (foldl block_step fs bs) = set fs \<union> set (List.map_filter block_path bs)"
  using foldl_block_step[of fs bs] by blast

lemma distinct_foldl_block_step:
  "distinct (foldl block_step fs bs) = distinct fs"
  using foldl_block_step[of fs bs] by blast

lemma set_extractFileChanges:
  "set (extractFileChanges v fs) = set fs \<union> set (value_paths v)"
proof (cases "unmarshal_msg v")
  case None
  then show ?thesis by (simp add: extractFileChanges_def value_paths_def)
next
  case (Some m)
  note msg = this
  show ?thesis
  proof (cases "mc_Role m = ''assistant''")
    case False
    then show ?thesis
      by (simp only: extractFileChanges_def value_paths_def msg option.case
          not_False_eq_True if_True if_False list.set Un_empty_right)
  next
    case True
    show ?thesis
    proof (cases "unmarshal_blocks (mc_Content m)")
      case None
      then show ?thesis
        by (simp only: extractFileChanges_def value_paths_def msg True option.case
            refl simp_thms if_True if_False list.set Un_empty_right)
    next
      case (Some bs)
      then show ?thesis
        by (simp only: extractFileChanges_def value_paths_def msg True option.case
            refl simp_thms if_True if_False set_foldl_block_step)
    qed
  qed
qed

lemma distinct_extractFileChanges:
  "distinct (extractFileChanges v fs) = distinct fs"
proof (cases "unmarshal_msg v")
  case None
  then show ?thesis by (simp add: extractFileChanges_def)
next
  case (Some m)
  note msg = this
  show ?thesis
  proof (cases "mc_Role m = ''assistant''")
    case False
    then show ?thesis
      by (simp only: extractFileChanges_def msg option.case not_False_eq_True if_True)
  next
    case True
    show ?thesis
    proof (cases "unmarshal_blocks (mc_Content m)")
      case None
      then show ?thesis
        by (simp only: extractFileChanges_def msg True option.case refl simp_thms if_False)
    next
      case (Some bs)
      then show ?thesis
        by (simp only: extractFileChanges_def msg True option.case refl simp_thms if_False
            distinct_foldl_block_step)
    qed
  qed
qed

lemma scan_line_paths:
  "set (filesChanged (scan_line tp st l)) = set (filesChanged st) \<union> set (line_paths l) \<and>
   distinct (filesChanged (scan_line tp st l)) = distinct (filesChanged st)"
proof (cases l)
  case (JSON v)
  show ?thesis
    by (cases "unmarshal_jsonlLine v")
       (simp_all add: JSON scan_line_filesChanged line_paths_def set_extractFileChanges
          distinct_extractFileChanges)
qed (simp_all add: scan_line_filesChanged line_paths_def)

lemma fold_paths:
  "set (filesChanged (foldl (scan_line tp) st ls)) =
     set (filesChanged st) \<union> (\<Union>l \<in> set ls. set (line_paths l)) \<and>
   distinct (filesChanged (foldl (scan_line tp) st ls)) = distinct (filesChanged st)"
proof (induction ls arbitrary: st)
  case Nil then show ?case by simp
next
  case (Cons l ls)
  show ?case by (simp add: Cons.IH scan_line_paths Un_assoc)
qed

lemma scan_all_paths:
  "set (filesChanged (scan_all tp ls)) = (\<Union>l \<in> set ls. set (line_paths l))"
  "distinct (filesChanged (scan_all tp ls))"
  by (simp_all add: scan_all_def fold_paths init_state_def)

lemma in_map_filter: "x \<in> set (List.map_filter g xs) \<longleftrightarrow> (\<exists>y \<in> set xs. g y = Some x)"
  by (induction xs) (auto simp: map_filter_simps split: option.splits)

lemma block_path_Some:
  "block_path b = Some fp \<longleftrightarrow>
     cb_Type b = ''tool_use'' \<and> (cb_Name b = ''Write'' \<or> cb_Name b = ''Edit'') \<and>
     (\<exists>inp. unmarshal_toolInput (cb_Input b) = Some inp \<and> ti_FilePath inp = fp \<and> fp \<noteq> [])"
  by (auto simp: block_path_def split: option.splits)

lemma in_value_paths:
  "fp \<in> set (value_paths v) \<longleftrightarrow>
     (\<exists>m bs. unmarshal_msg v = Some m \<and> mc_Role m = ''assistant'' \<and>
             unmarshal_blocks (mc_Content m) = Some bs \<and>
             fp \<in> set (List.map_filter block_path bs))"
proof (cases "unmarshal_msg v")
  case None
  then show ?thesis by (simp add: value_paths_def)
next
  case (Some m)
  note msg = this
  show ?thesis
  proof (cases "mc_Role m = ''assistant''")
    case False
    have "value_paths v = []"
      using False by (simp only: value_paths_def msg option.case if_False)
    with msg False show ?thesis by auto
  next
    case True
    show ?thesis
    proof (cases "unmarshal_blocks (mc_Content m)")
      case None
      have "value_paths v = []"
        by (simp only: value_paths_def msg True None option.case refl if_True)
      with msg None show ?thesis by auto
    next
      case (Some bs)
      have "value_paths v = List.map_filter block_path bs"
        by (simp only: value_paths_def msg True Some option.case refl if_True)
      with msg True Some show ?thesis by auto
    qed
  qed
qed

lemma in_line_paths_value:
  "fp \<in> set (line_paths l) \<longleftrightarrow>
     (\<exists>v e. l = JSON v \<and> unmarshal_jsonlLine v = Some e \<and> fp \<in> set (value_paths v))"
proof (cases l)
  case (JSON v)
  show ?thesis
    by (cases "unmarshal_jsonlLine v") (simp_all add: JSON line_paths_def)
qed (simp_all add: line_paths_def)

lemma in_line_paths:
  "fp \<in> set (line_paths l) \<longleftrightarrow>
     (\<exists>v e m bs b inp.
        l = JSON v \<and> unmarshal_jsonlLine v = Some e \<and>
        unmarshal_msg v = Some m \<and> mc_Role m = ''assistant'' \<and>
        unmarshal_blocks (mc_Content m) = Some bs \<and> b \<in> set bs \<and>
        cb_Type b = ''tool_use'' \<and> (cb_Name b = ''Write'' \<or> cb_Name b = ''Edit'') \<and>
        unmarshal_toolInput (cb_Input b) = Some inp \<and> ti_FilePath inp = fp \<and> fp \<noteq> [])"
  unfolding in_line_paths_value in_value_paths in_map_filter block_path_Some
  by blast

lemma build_fields:
  "build rt p st = Some s \<Longrightarrow>
   TranscriptPath s = p \<and> WorkingDir s = workingDir st \<and>
   FilesChanged s = range_keys rt (filesChanged st) \<and>
   SessionID s = (if sessionID st = [] then extractSessionIDFromPath p else sessionID st)"
  by (auto simp: build_def Let_def split: if_splits)


subsection \<open>Two parses of one file\<close>

lemma build_range_keys:
  assumes "mset (range_keys rt1 (filesChanged st)) = mset (filesChanged st)"
      and "mset (range_keys rt2 (filesChanged st)) = mset (filesChanged st)"
      and "distinct (filesChanged st)"
  shows "(build rt1 p st = None \<longleftrightarrow> build rt2 p st = None) \<and>
         (\<forall>a b. build rt1 p st = Some a \<and> build rt2 p st = Some b \<longrightarrow>
            SessionID a = SessionID b \<and> TranscriptPath a = TranscriptPath b \<and>
            WorkingDir a = WorkingDir b \<and> DurationMs a = DurationMs b \<and>
            ExitCode a = ExitCode b \<and>
            mset (FilesChanged a) = mset (FilesChanged b) \<and>
            distinct (FilesChanged a) \<and> distinct (FilesChanged b))"
proof -
  have d1: "distinct (range_keys rt1 (filesChanged st))"
    using assms(1,3) by (metis mset_eq_imp_distinct_iff)
  have d2: "distinct (range_keys rt2 (filesChanged st))"
    using assms(2,3) by (metis mset_eq_imp_distinct_iff)
  show ?thesis
    using assms(1,2) d1 d2 by (auto simp: build_def Let_def split: if_splits)
qed

text \<open>
  Claim C5, amended. Two parses of the same file, under any two orders in which the
  runtime may visit the keys of \<^verbatim>\<open>filesChanged\<close>, both return no session or both
  return one; the two sessions agree on every field but \<^verbatim>\<open>FilesChanged\<close>, and
  their \<^verbatim>\<open>FilesChanged\<close> hold the same paths, each once, in an order that may differ.
\<close>

theorem two_parses_agree_up_to_order:
  assumes "os_Open rt1 p = os_Open rt2 p"
      and "time_Parse rt1 = time_Parse rt2"
      and "\<forall>ks. mset (range_keys rt1 ks) = mset ks"
      and "\<forall>ks. mset (range_keys rt2 ks) = mset ks"
  shows "(parseTranscript rt1 p = None \<longleftrightarrow> parseTranscript rt2 p = None) \<and>
         (\<forall>a b. parseTranscript rt1 p = Some a \<and> parseTranscript rt2 p = Some b \<longrightarrow>
            SessionID a = SessionID b \<and> TranscriptPath a = TranscriptPath b \<and>
            WorkingDir a = WorkingDir b \<and> DurationMs a = DurationMs b \<and>
            ExitCode a = ExitCode b \<and>
            mset (FilesChanged a) = mset (FilesChanged b) \<and>
            distinct (FilesChanged a) \<and> distinct (FilesChanged b))"
proof (cases "os_Open rt2 p")
  case None
  with assms(1) show ?thesis by (simp add: parseTranscript_def)
next
  case (Some f)
  define st where "st = scan_all (time_Parse rt2) (scanned f)"
  have p1: "parseTranscript rt1 p = build rt1 p st"
    using assms(1,2) Some by (simp add: parseTranscript_def st_def)
  have p2: "parseTranscript rt2 p = build rt2 p st"
    using Some by (simp add: parseTranscript_def st_def)
  have "distinct (filesChanged st)"
    by (simp add: st_def scan_all_paths)
  with assms(3,4) show ?thesis
    unfolding p1 p2 by (intro build_range_keys) simp_all
qed

theorem two_parses_agree_up_to_order_witness:
  "os_Open ex_rt ''/tmp/cfa3335c-ea38-4cf8-a1f2-9e3cf9789708.jsonl'' =
     os_Open ex_rt_rev ''/tmp/cfa3335c-ea38-4cf8-a1f2-9e3cf9789708.jsonl'' \<and>
   time_Parse ex_rt = time_Parse ex_rt_rev \<and>
   (\<forall>ks. mset (range_keys ex_rt ks) = mset ks) \<and>
   (\<forall>ks. mset (range_keys ex_rt_rev ks) = mset ks) \<and>
   (\<exists>a b. parseTranscript ex_rt ''/tmp/cfa3335c-ea38-4cf8-a1f2-9e3cf9789708.jsonl'' = Some a \<and>
          parseTranscript ex_rt_rev ''/tmp/cfa3335c-ea38-4cf8-a1f2-9e3cf9789708.jsonl'' = Some b \<and>
          SessionID a = SessionID b \<and> DurationMs a = DurationMs b \<and>
          mset (FilesChanged a) = mset (FilesChanged b))"
proof -
  have h1: "os_Open ex_rt ''/tmp/cfa3335c-ea38-4cf8-a1f2-9e3cf9789708.jsonl'' =
            os_Open ex_rt_rev ''/tmp/cfa3335c-ea38-4cf8-a1f2-9e3cf9789708.jsonl''"
    by (simp add: ex_rt_rev_def)
  have h2: "time_Parse ex_rt = time_Parse ex_rt_rev"
    by (simp add: ex_rt_rev_def)
  have h3: "\<forall>ks. mset (range_keys ex_rt ks) = mset ks"
    by (simp add: ex_rt_def)
  have h4: "\<forall>ks. mset (range_keys ex_rt_rev ks) = mset ks"
    by (simp add: ex_rt_rev_def)
  have "parseTranscript ex_rt ''/tmp/cfa3335c-ea38-4cf8-a1f2-9e3cf9789708.jsonl'' \<noteq> None"
    by code_simp
  then obtain a where a: "parseTranscript ex_rt ''/tmp/cfa3335c-ea38-4cf8-a1f2-9e3cf9789708.jsonl'' = Some a"
    by blast
  with two_parses_agree_up_to_order[OF h1 h2 h3 h4]
  obtain b where b: "parseTranscript ex_rt_rev ''/tmp/cfa3335c-ea38-4cf8-a1f2-9e3cf9789708.jsonl'' = Some b"
    by auto
  from two_parses_agree_up_to_order[OF h1 h2 h3 h4] a b
  have "SessionID a = SessionID b \<and> DurationMs a = DurationMs b \<and>
        mset (FilesChanged a) = mset (FilesChanged b)"
    by blast
  with h1 h2 h3 h4 a b show ?thesis by blast
qed

text \<open>
  Claim C5 as stated fails: the two parses below read the same file and differ in the
  order of \<^verbatim>\<open>FilesChanged\<close>.
\<close>

theorem files_changed_order_counterexample:
  "map_option FilesChanged
       (parseTranscript ex_rt ''/tmp/cfa3335c-ea38-4cf8-a1f2-9e3cf9789708.jsonl'') =
     Some [''/home/mike/Warren/internal/api/health.go'', ''/home/mike/Warren/main.go''] \<and>
   map_option FilesChanged
       (parseTranscript ex_rt_rev ''/tmp/cfa3335c-ea38-4cf8-a1f2-9e3cf9789708.jsonl'') =
     Some [''/home/mike/Warren/main.go'', ''/home/mike/Warren/internal/api/health.go''] \<and>
   os_Open ex_rt_rev = os_Open ex_rt \<and> time_Parse ex_rt_rev = time_Parse ex_rt"
proof -
  have a: "map_option FilesChanged
       (parseTranscript ex_rt ''/tmp/cfa3335c-ea38-4cf8-a1f2-9e3cf9789708.jsonl'') =
     Some [''/home/mike/Warren/internal/api/health.go'', ''/home/mike/Warren/main.go'']"
    by code_simp
  have b: "map_option FilesChanged
       (parseTranscript ex_rt_rev ''/tmp/cfa3335c-ea38-4cf8-a1f2-9e3cf9789708.jsonl'') =
     Some [''/home/mike/Warren/main.go'', ''/home/mike/Warren/internal/api/health.go'']"
    by code_simp
  from a b show ?thesis by (simp add: ex_rt_rev_def)
qed

subsection \<open>The two tags of a line\<close>

text \<open>
  Claim C10. The exit code looks at the top-level \<^verbatim>\<open>type\<close> of the lines that
  decode; a path is in \<^verbatim>\<open>FilesChanged\<close> exactly when some line that decodes has the
  nested \<^verbatim>\<open>message.role\<close> equal to \<^verbatim>\<open>assistant\<close> and a
  \<^verbatim>\<open>tool_use\<close> block named \<^verbatim>\<open>Write\<close> or \<^verbatim>\<open>Edit\<close> whose input carries
  that path, non-empty. So there are transcripts for which the parser returns a session
  with files changed and the exit code 1.
\<close>

theorem exit_code_and_files_read_different_tags:
  "(\<forall>rt p f s.
      os_Open rt p = Some f \<and> parseTranscript rt p = Some s \<and>
      (\<forall>ks. set (range_keys rt ks) = set ks) \<longrightarrow>
        (ExitCode s = 0 \<longleftrightarrow>
           (\<exists>v e. JSON v \<in> set (scanned f) \<and> unmarshal_jsonlLine v = Some e \<and>
                  jl_Type e = ''assistant'')) \<and>
        (ExitCode s = 1 \<longleftrightarrow>
           \<not> (\<exists>v e. JSON v \<in> set (scanned f) \<and> unmarshal_jsonlLine v = Some e \<and>
                    jl_Type e = ''assistant'')) \<and>
        (\<forall>fp. fp \<in> set (FilesChanged s) \<longleftrightarrow>
           (\<exists>v e m bs b inp.
              JSON v \<in> set (scanned f) \<and> unmarshal_jsonlLine v = Some e \<and>
              unmarshal_msg v = Some m \<and> mc_Role m = ''assistant'' \<and>
              unmarshal_blocks (mc_Content m) = Some bs \<and> b \<in> set bs \<and>
              cb_Type b = ''tool_use'' \<and> (cb_Name b = ''Write'' \<or> cb_Name b = ''Edit'') \<and>
              unmarshal_toolInput (cb_Input b) = Some inp \<and> ti_FilePath inp = fp \<and>
              fp \<noteq> []))) \<and>
   (\<exists>rt p s. parseTranscript rt p = Some s \<and> FilesChanged s \<noteq> [] \<and> ExitCode s = 1)"
proof (intro conjI allI impI)
  fix rt p f s
  assume h: "os_Open rt p = Some f \<and> parseTranscript rt p = Some s \<and>
             (\<forall>ks. set (range_keys rt ks) = set ks)"
  then have b: "build rt p (scan_all (time_Parse rt) (scanned f)) = Some s"
    by (auto simp: parseTranscript_def)
  have tag: "(\<exists>l \<in> set (scanned f). assistant_tagged l) \<longleftrightarrow>
             (\<exists>v e. JSON v \<in> set (scanned f) \<and> unmarshal_jsonlLine v = Some e \<and>
                    jl_Type e = ''assistant'')" (is "?A \<longleftrightarrow> ?B")
  proof
    assume ?A
    then obtain l where l: "l \<in> set (scanned f)" "assistant_tagged l" by blast
    from l(2) obtain e where e: "decode_line l = Some e" "jl_Type e = ''assistant''"
      by (cases "decode_line l") (simp_all add: assistant_tagged_def)
    from e(1) obtain v where "l = JSON v" "unmarshal_jsonlLine v = Some e"
      by (cases l) (simp_all add: decode_line_def)
    with l(1) e(2) show ?B by blast
  next
    assume ?B
    then obtain v e where "JSON v \<in> set (scanned f)" "unmarshal_jsonlLine v = Some e"
        "jl_Type e = ''assistant''" by blast
    moreover from this have "assistant_tagged (JSON v)"
      by (simp add: assistant_tagged_def decode_line_def)
    ultimately show ?A by blast
  qed
  from build_ExitCode[OF b]
  have ec: "ExitCode s = (if (\<exists>l \<in> set (scanned f). assistant_tagged l) then 0 else 1)"
    by (simp add: scan_all_hasAssistant)
  from ec tag
  show "ExitCode s = 0 \<longleftrightarrow>
           (\<exists>v e. JSON v \<in> set (scanned f) \<and> unmarshal_jsonlLine v = Some e \<and>
                  jl_Type e = ''assistant'')"
    by (simp split: if_splits)
  from ec tag
  show "ExitCode s = 1 \<longleftrightarrow>
           \<not> (\<exists>v e. JSON v \<in> set (scanned f) \<and> unmarshal_jsonlLine v = Some e \<and>
                    jl_Type e = ''assistant'')"
    by (simp split: if_splits)
  fix fp
  from build_fields[OF b] h
  have "set (FilesChanged s) = (\<Union>l \<in> set (scanned f). set (line_paths l))"
    by (simp add: scan_all_paths)
  then have "fp \<in> set (FilesChanged s) \<longleftrightarrow> (\<exists>l \<in> set (scanned f). fp \<in> set (line_paths l))"
    by simp
  also have "\<dots> \<longleftrightarrow>
           (\<exists>v e m bs b inp.
              JSON v \<in> set (scanned f) \<and> unmarshal_jsonlLine v = Some e \<and>
              unmarshal_msg v = Some m \<and> mc_Role m = ''assistant'' \<and>
              unmarshal_blocks (mc_Content m) = Some bs \<and> b \<in> set bs \<and>
              cb_Type b = ''tool_use'' \<and> (cb_Name b = ''Write'' \<or> cb_Name b = ''Edit'') \<and>
              unmarshal_toolInput (cb_Input b) = Some inp \<and> ti_FilePath inp = fp \<and>
              fp \<noteq> [])"
    unfolding in_line_paths by blast
  finally show "fp \<in> set (FilesChanged s) \<longleftrightarrow>
           (\<exists>v e m bs b inp.
              JSON v \<in> set (scanned f) \<and> unmarshal_jsonlLine v = Some e \<and>
              unmarshal_msg v = Some m \<and> mc_Role m = ''assistant'' \<and>
              unmarshal_blocks (mc_Content m) = Some bs \<and> b \<in> set bs \<and>
              cb_Type b = ''tool_use'' \<and> (cb_Name b = ''Write'' \<or> cb_Name b = ''Edit'') \<and>
              unmarshal_toolInput (cb_Input b) = Some inp \<and> ti_FilePath inp = fp \<and>
              fp \<noteq> [])" .
next
  have "map_option (\<lambda>s. (FilesChanged s, ExitCode s))
          (parseTranscript ex_rt ''/tmp/cfa3335c-ea38-4cf8-a1f2-9e3cf9789708.jsonl'') =
        Some ([''/home/mike/Warren/internal/api/health.go'', ''/home/mike/Warren/main.go''], 1)"
    by code_simp
  then obtain z where "parseTranscript ex_rt ''/tmp/cfa3335c-ea38-4cf8-a1f2-9e3cf9789708.jsonl'' = Some z"
      "FilesChanged z = [''/home/mike/Warren/internal/api/health.go'', ''/home/mike/Warren/main.go'']"
      "ExitCode z = 1"
    by auto
  then have "parseTranscript ex_rt ''/tmp/cfa3335c-ea38-4cf8-a1f2-9e3cf9789708.jsonl'' = Some z \<and>
             FilesChanged z \<noteq> [] \<and> ExitCode z = 1"
    by simp
  then show "\<exists>rt p s. parseTranscript rt p = Some s \<and> FilesChanged s \<noteq> [] \<and> ExitCode s = 1"
    by (intro exI)
qed

theorem exit_code_and_files_read_different_tags_witness:
  "os_Open ex_rt ''/tmp/cfa3335c-ea38-4cf8-a1f2-9e3cf9789708.jsonl'' = Some basic_transcript \<and>
   (\<forall>ks. set (range_keys ex_rt ks) = set ks) \<and>
   map assistant_tagged (scanned basic_transcript) = [False, False, False, False] \<and>
   map line_paths (scanned basic_transcript) =
     [[], [''/home/mike/Warren/internal/api/health.go''], [''/home/mike/Warren/main.go''], []] \<and>
   (\<exists>s. parseTranscript ex_rt ''/tmp/cfa3335c-ea38-4cf8-a1f2-9e3cf9789708.jsonl'' = Some s \<and>
        ExitCode s = 1 \<and>
        set (FilesChanged s) =
          {''/home/mike/Warren/internal/api/health.go'', ''/home/mike/Warren/main.go''})"
proof -
  have h1: "os_Open ex_rt ''/tmp/cfa3335c-ea38-4cf8-a1f2-9e3cf9789708.jsonl'' = Some basic_transcript"
    by (simp add: ex_rt_def ex_Open_def)
  have h2: "\<forall>ks. set (range_keys ex_rt ks) = set ks"
    by (simp add: ex_rt_def)
  have tags: "map assistant_tagged (scanned basic_transcript) = [False, False, False, False]"
    by code_simp
  have paths: "map line_paths (scanned basic_transcript) =
     [[], [''/home/mike/Warren/internal/api/health.go''], [''/home/mike/Warren/main.go''], []]"
    by code_simp
  have fc: "map_option (\<lambda>s. set (FilesChanged s))
          (parseTranscript ex_rt ''/tmp/cfa3335c-ea38-4cf8-a1f2-9e3cf9789708.jsonl'') =
        Some {''/home/mike/Warren/internal/api/health.go'', ''/home/mike/Warren/main.go''}"
    by code_simp
  then obtain s where s: "parseTranscript ex_rt ''/tmp/cfa3335c-ea38-4cf8-a1f2-9e3cf9789708.jsonl'' = Some s"
      "set (FilesChanged s) = {''/home/mike/Warren/internal/api/health.go'', ''/home/mike/Warren/main.go''}"
    by auto
  have none: "\<not> (\<exists>v e. JSON v \<in> set (scanned basic_transcript) \<and> unmarshal_jsonlLine v = Some e \<and>
                    jl_Type e = ''assistant'')"
  proof
    assume "\<exists>v e. JSON v \<in> set (scanned basic_transcript) \<and> unmarshal_jsonlLine v = Some e \<and>
                    jl_Type e = ''assistant''"
    then obtain v e where v: "JSON v \<in> set (scanned basic_transcript)"
        "unmarshal_jsonlLine v = Some e" "jl_Type e = ''assistant''" by blast
    then have "assistant_tagged (JSON v)"
      by (simp add: assistant_tagged_def decode_line_def)
    with v(1) have "True \<in> set (map assistant_tagged (scanned basic_transcript))"
      by force
    then show False by (simp only: tags) simp
  qed
  from exit_code_and_files_read_different_tags h1 s(1) h2
  have "ExitCode s = 1 \<longleftrightarrow>
           \<not> (\<exists>v e. JSON v \<in> set (scanned basic_transcript) \<and> unmarshal_jsonlLine v = Some e \<and>
                    jl_Type e = ''assistant'')"
    by blast
  with none have "ExitCode s = 1" by blast
  with h1 h2 tags paths s show ?thesis by blast
qed

subsection \<open>The sweep, entry by entry\<close>

lemma check_entry_at:
  "check_entry thr live now (fs, rs) (q, tf) =
     ((case entry_after thr live now q tf of None \<Rightarrow> AList.delete q fs
       | Some tf' \<Rightarrow> if completes thr live now q tf then AList.update q tf' fs else fs),
      (if completes thr live now q tf then rs @ [q] else rs))"
  by (auto simp: check_entry_def entry_after_def evictable_def completes_def)

lemma check_fold:
  assumes "distinct (map fst es)"
      and "\<forall>(q, tf) \<in> set es. map_of fs q = Some tf"
  shows "map_of (fst (foldl (check_entry thr live now) (fs, rs) es)) p =
           (case map_of es p of None \<Rightarrow> map_of fs p
            | Some tf \<Rightarrow> entry_after thr live now p tf) \<and>
         count_list (snd (foldl (check_entry thr live now) (fs, rs) es)) p =
           count_list rs p +
           (case map_of es p of None \<Rightarrow> 0
            | Some tf \<Rightarrow> if completes thr live now p tf then 1 else 0) \<and>
         (distinct (map fst fs) \<longrightarrow>
            distinct (map fst (fst (foldl (check_entry thr live now) (fs, rs) es))))"
  using assms
proof (induction es arbitrary: fs rs)
  case Nil
  then show ?case by simp
next
  case (Cons e es)
  obtain q tf where e: "e = (q, tf)" by (cases e)
  from Cons.prems e have d: "distinct (map fst es)" and q: "q \<notin> fst ` set es"
    and cur: "map_of fs q = Some tf" and rest: "\<forall>(q', tf') \<in> set es. map_of fs q' = Some tf'"
    by auto
  from q have mq: "map_of es q = None"
    by (simp add: map_of_eq_None_iff)
  obtain fs1 rs1 where s1: "check_entry thr live now (fs, rs) (q, tf) = (fs1, rs1)"
    by (cases "check_entry thr live now (fs, rs) (q, tf)")
  have fs1: "map_of fs1 p = (if p = q then entry_after thr live now q tf else map_of fs p)" for p
    using s1 cur unfolding check_entry_at
    by (auto simp: update_conv' delete_conv' entry_after_def split: option.splits if_splits)
  have "\<forall>(q', tf') \<in> set es. map_of fs1 q' = Some tf'"
  proof (clarify)
    fix q' tf' assume m: "(q', tf') \<in> set es"
    with q have "q' \<noteq> q" by force
    moreover from rest m have "map_of fs q' = Some tf'" by blast
    ultimately show "map_of fs1 q' = Some tf'" by (simp add: fs1)
  qed
  note IH = Cons.IH[OF d this, of rs1]
  have rs1: "count_list rs1 p =
     count_list rs p + (if p = q \<and> completes thr live now q tf then 1 else 0)"
    using s1 unfolding check_entry_at by auto
  have d1: "distinct (map fst fs) \<longrightarrow> distinct (map fst fs1)"
    using s1 unfolding check_entry_at
    by (auto simp: distinct_update distinct_delete split: option.splits if_splits)
  show ?case
  proof (cases "p = q")
    case True
    with IH mq fs1[of p] rs1 d1 show ?thesis by (simp add: e s1)
  next
    case False
    with IH fs1[of p] rs1 d1 show ?thesis by (simp add: e s1 split: option.splits)
  qed
qed

lemma map_of_self: "distinct (map fst es) \<Longrightarrow> \<forall>(q, tf) \<in> set es. map_of es q = Some tf"
  by auto

lemma check_locked_at:
  assumes "distinct (map fst (files t))"
  shows "map_of (files (fst (check_locked rt now t))) p =
           (case map_of (files t) p of None \<Rightarrow> None
            | Some tf \<Rightarrow> entry_after (idleThreshold t) (processCheck rt) now p tf)"
    and "count_list (snd (check_locked rt now t)) p =
           (case map_of (files t) p of None \<Rightarrow> 0
            | Some tf \<Rightarrow> if completes (idleThreshold t) (processCheck rt) now p tf then 1 else 0)"
    and "distinct (map fst (files (fst (check_locked rt now t))))"
    and "idleThreshold (fst (check_locked rt now t)) = idleThreshold t"
    and "done_chan (fst (check_locked rt now t)) = done_chan t"
proof -
  note F = check_fold[OF assms map_of_self[OF assms],
      of "idleThreshold t" "processCheck rt" now "[]" p]
  obtain fs rs where r:
    "foldl (check_entry (idleThreshold t) (processCheck rt) now) (files t, []) (files t) = (fs, rs)"
    by (cases "foldl (check_entry (idleThreshold t) (processCheck rt) now) (files t, []) (files t)")
  then have c: "check_locked rt now t = (t\<lparr>files := fs\<rparr>, rs)"
    by (simp add: check_locked_def)
  from F r assms show "map_of (files (fst (check_locked rt now t))) p =
           (case map_of (files t) p of None \<Rightarrow> None
            | Some tf \<Rightarrow> entry_after (idleThreshold t) (processCheck rt) now p tf)"
    by (simp add: c split: option.splits)
  from F r show "count_list (snd (check_locked rt now t)) p =
           (case map_of (files t) p of None \<Rightarrow> 0
            | Some tf \<Rightarrow> if completes (idleThreshold t) (processCheck rt) now p tf then 1 else 0)"
    by (simp add: c)
  from F r assms show "distinct (map fst (files (fst (check_locked rt now t))))"
    by (simp add: c)
  show "idleThreshold (fst (check_locked rt now t)) = idleThreshold t"
    by (simp add: c)
  show "done_chan (fst (check_locked rt now t)) = done_chan t"
    by (simp add: c)
qed

lemma triple_parts [simp]:
  "state_of (a, b, c) = a" "queued (a, b, c) = b" "callbacks (a, b, c) = c"
  by (simp_all add: state_of_def queued_def callbacks_def)

lemma check_parts:
  "state_of (check rt now t) = fst (check_locked rt now t)"
  "queued (check rt now t) = snd (check_locked rt now t)"
  "callbacks (check rt now t) = List.map_filter (parseTranscript rt) (snd (check_locked rt now t))"
  by (simp_all add: check_def split: prod.splits)

lemma Touch_at:
  "map_of (files (Touch t p now)) q =
     (if q = p
      then Some (case map_of (files t) p of
                   Some tf \<Rightarrow> tf\<lparr>lastWrite := now, reported := False\<rparr>
                 | None \<Rightarrow> \<lparr>path = p, lastWrite = now, reported = False, reportedAt = 0\<rparr>)
      else map_of (files t) q)"
  by (simp add: Touch_def update_conv' split: option.splits)

lemma Touch_keeps:
  "distinct (map fst (files t)) \<Longrightarrow> distinct (map fst (files (Touch t p now)))"
  "idleThreshold (Touch t p now) = idleThreshold t"
  "done_chan (Touch t p now) = done_chan t"
  by (simp_all add: Touch_def distinct_update split: option.splits)

lemma step_keeps:
  assumes "distinct (map fst (files t))"
  shows "distinct (map fst (files (state_of (step t e)))) \<and>
         idleThreshold (state_of (step t e)) = idleThreshold t \<and>
         done_chan (state_of (step t e)) = done_chan t"
proof (cases e)
  case (TouchEv p now)
  with assms show ?thesis by (simp add: Touch_keeps)
next
  case (SweepEv now rt)
  with assms show ?thesis by (simp add: check_parts check_locked_at)
qed

lemma run_Cons_parts:
  "state_of (run t (e # es)) = state_of (run (state_of (step t e)) es)"
  "queued (run t (e # es)) = queued (step t e) @ queued (run (state_of (step t e)) es)"
  "callbacks (run t (e # es)) = callbacks (step t e) @ callbacks (run (state_of (step t e)) es)"
  by (simp_all split: prod.splits)

lemma run_Nil_parts:
  "state_of (run t []) = t" "queued (run t []) = []" "callbacks (run t []) = []"
  by simp_all

declare run.simps [simp del]

lemma run_keeps:
  assumes "distinct (map fst (files t))"
  shows "distinct (map fst (files (state_of (run t es)))) \<and>
         idleThreshold (state_of (run t es)) = idleThreshold t \<and>
         done_chan (state_of (run t es)) = done_chan t"
  using assms
proof (induction es arbitrary: t)
  case Nil
  then show ?case by (simp add: run_Nil_parts)
next
  case (Cons e es)
  from step_keeps[OF Cons.prems, of e] Cons.IH[of "state_of (step t e)"]
  show ?case by (simp add: run_Cons_parts)
qed

lemma run_append_parts:
  "state_of (run t (es1 @ es2)) = state_of (run (state_of (run t es1)) es2)"
  "queued (run t (es1 @ es2)) = queued (run t es1) @ queued (run (state_of (run t es1)) es2)"
  "callbacks (run t (es1 @ es2)) =
     callbacks (run t es1) @ callbacks (run (state_of (run t es1)) es2)"
  by (induction es1 arbitrary: t) (simp_all add: run_Cons_parts run_Nil_parts)

lemma NewTracker_fields [simp]:
  "files (NewTracker idle poll) = []" "idleThreshold (NewTracker idle poll) = idle"
  "done_chan (NewTracker idle poll) = Open"
  by (simp_all add: NewTracker_def)

lemma reach_keeps:
  "distinct (map fst (files (state_of (run (NewTracker idle poll) es))))"
  "idleThreshold (state_of (run (NewTracker idle poll) es)) = idle"
  using run_keeps[of "NewTracker idle poll" es] by simp_all

lemma sweep_at:
  assumes "distinct (map fst (files t))"
  shows "map_of (files (state_of (check rt now t))) p =
           (case map_of (files t) p of None \<Rightarrow> None
            | Some tf \<Rightarrow> entry_after (idleThreshold t) (processCheck rt) now p tf)"
    and "count_list (queued (check rt now t)) p =
           (case map_of (files t) p of None \<Rightarrow> 0
            | Some tf \<Rightarrow>
                if completes (idleThreshold t) (processCheck rt) now p tf then 1 else 0)"
  by (simp_all add: check_parts check_locked_at(1,2)[OF assms])

lemma quiet_run:
  assumes "distinct (map fst (files t))"
      and "map_of (files t) p = Some tf" and "\<not> reported tf"
      and "\<forall>e \<in> set es. \<not> touches p e \<and> \<not> due (idleThreshold t) (lastWrite tf) p e"
  shows "map_of (files (state_of (run t es))) p = Some tf \<and>
         count_list (queued (run t es)) p = 0"
  using assms
proof (induction es arbitrary: t)
  case Nil
  then show ?case by (simp add: run_Nil_parts)
next
  case (Cons e es)
  let ?t1 = "state_of (step t e)"
  note K = step_keeps[OF Cons.prems(1), of e]
  have e: "\<not> touches p e" "\<not> due (idleThreshold t) (lastWrite tf) p e"
    using Cons.prems(4) by simp_all
  have m: "map_of (files ?t1) p = Some tf"
    using e Cons.prems(2,3)
    by (cases e)
       (auto simp: Touch_at sweep_at(1)[OF Cons.prems(1)] entry_after_def evictable_def
          completes_def)
  have c: "count_list (queued (step t e)) p = 0"
    using e Cons.prems(2,3)
    by (cases e) (auto simp: sweep_at(2)[OF Cons.prems(1)] completes_def)
  have "\<forall>e \<in> set es. \<not> touches p e \<and> \<not> due (idleThreshold ?t1) (lastWrite tf) p e"
    using Cons.prems(4) K by simp
  from Cons.IH[OF _ m Cons.prems(3) this] K c
  show ?case by (simp add: run_Cons_parts)
qed

lemma closed_run:
  assumes "distinct (map fst (files t))"
      and "closed_at t p"
      and "\<forall>e \<in> set es. \<not> touches p e"
  shows "closed_at (state_of (run t es)) p \<and> count_list (queued (run t es)) p = 0"
  using assms
proof (induction es arbitrary: t)
  case Nil
  then show ?case by (simp add: run_Nil_parts)
next
  case (Cons e es)
  let ?t1 = "state_of (step t e)"
  note K = step_keeps[OF Cons.prems(1), of e]
  have e: "\<not> touches p e"
    using Cons.prems(3) by simp
  have m: "closed_at ?t1 p"
    using e Cons.prems(2)
    by (cases e)
       (auto simp: closed_at_def Touch_at sweep_at(1)[OF Cons.prems(1)] entry_after_def
          completes_def split: option.splits if_splits)
  have c: "count_list (queued (step t e)) p = 0"
    using e Cons.prems(2)
    by (cases e)
       (auto simp: closed_at_def sweep_at(2)[OF Cons.prems(1)] completes_def
          split: option.splits)
  have "\<forall>e \<in> set es. \<not> touches p e"
    using Cons.prems(3) by simp
  from Cons.IH[OF _ m this] K c
  show ?case by (simp add: run_Cons_parts)
qed

lemma live_run:
  assumes "distinct (map fst (files t))"
      and "\<forall>e \<in> set es. oracle_live p e"
  shows "count_list (queued (run t es)) p = 0"
  using assms
proof (induction es arbitrary: t)
  case Nil
  then show ?case by (simp add: run_Nil_parts)
next
  case (Cons e es)
  let ?t1 = "state_of (step t e)"
  note K = step_keeps[OF Cons.prems(1), of e]
  have e: "oracle_live p e"
    using Cons.prems(2) by simp
  have c: "count_list (queued (step t e)) p = 0"
    using e
    by (cases e)
       (auto simp: sweep_at(2)[OF Cons.prems(1)] completes_def split: option.splits)
  have "\<forall>e \<in> set es. oracle_live p e"
    using Cons.prems(2) by simp
  from Cons.IH[OF _ this] K c
  show ?case by (simp add: run_Cons_parts)
qed

lemma due_sweep:
  assumes "distinct (map fst (files t))"
      and "map_of (files t) p = Some tf" and "\<not> reported tf"
      and "due (idleThreshold t) (lastWrite tf) p (SweepEv now rt)"
  shows "map_of (files (state_of (check rt now t))) p =
           Some (tf\<lparr>reported := True, reportedAt := now\<rparr>)"
    and "count_list (queued (check rt now t)) p = 1"
  using assms(2,3,4)
  by (simp_all add: sweep_at[OF assms(1)] entry_after_def evictable_def completes_def)

lemma parse_path: "parseTranscript rt q = Some s \<Longrightarrow> TranscriptPath s = q"
  by (auto simp: parseTranscript_def build_def Let_def split: option.splits if_splits)

lemma callbacks_for_path:
  "filter (\<lambda>s. TranscriptPath s = p) (List.map_filter (parseTranscript rt) rs) =
   List.map_filter (parseTranscript rt) (filter (\<lambda>q. q = p) rs)"
proof (induction rs)
  case Nil
  then show ?case by (simp add: map_filter_simps)
next
  case (Cons q rs)
  show ?case
  proof (cases "parseTranscript rt q")
    case None
    then show ?thesis using Cons by (cases "q = p") (simp_all add: map_filter_simps)
  next
    case (Some s)
    with parse_path[OF Some] Cons show ?thesis
      by (cases "q = p") (simp_all add: map_filter_simps)
  qed
qed

lemma filter_eq_replicate: "filter (\<lambda>q. q = p) rs = replicate (count_list rs p) p"
  by (induction rs) auto

lemma callbacks_of_sweep:
  "filter (\<lambda>s. TranscriptPath s = p) (callbacks (check rt now t)) =
   List.map_filter (parseTranscript rt) (replicate (count_list (queued (check rt now t)) p) p)"
  by (simp add: check_parts callbacks_for_path filter_eq_replicate)

lemma Sub_ge:
  assumes "cleanupGrace \<le> a - b"
  shows "cleanupGrace \<le> Sub a b"
  using assms by (simp add: Sub_def cleanupGrace_def maxDuration_def minDuration_def)

lemma only_when:
  assumes "distinct (map fst (files t))" and "p \<in> set (queued (check rt now t))"
  shows "\<exists>tf. map_of (files t) p = Some tf \<and> \<not> reported tf \<and>
              idleThreshold t \<le> Sub now (lastWrite tf) \<and> \<not> processCheck rt p"
proof -
  from assms(2) have "count_list (queued (check rt now t)) p \<noteq> 0"
    by (simp add: count_list_0_iff)
  then show ?thesis
    by (auto simp: sweep_at(2)[OF assms(1)] completes_def split: option.splits if_splits)
qed

lemma episode:
  assumes d: "distinct (map fst (files t))"
      and m: "map_of (files t) p = Some tf" and r: "\<not> reported tf"
      and q1: "\<forall>e \<in> set es1. \<not> touches p e \<and> \<not> due (idleThreshold t) (lastWrite tf) p e"
      and du: "due (idleThreshold t) (lastWrite tf) p (SweepEv now rt)"
      and q2: "\<forall>e \<in> set es2. \<not> touches p e"
  shows "count_list (queued (run t es1)) p = 0"
    and "count_list (queued (check rt now (state_of (run t es1)))) p = 1"
    and "count_list (queued (run (state_of (check rt now (state_of (run t es1)))) es2)) p = 0"
    and "filter (\<lambda>s. TranscriptPath s = p) (callbacks (check rt now (state_of (run t es1)))) =
           (case parseTranscript rt p of None \<Rightarrow> [] | Some s \<Rightarrow> [s])"
proof -
  let ?t1 = "state_of (run t es1)"
  let ?t2 = "state_of (check rt now ?t1)"
  note K1 = run_keeps[OF d, of es1]
  from quiet_run[OF d m r q1]
  have a: "map_of (files ?t1) p = Some tf" "count_list (queued (run t es1)) p = 0"
    by simp_all
  from K1 have d1: "distinct (map fst (files ?t1))" and i1: "idleThreshold ?t1 = idleThreshold t"
    by simp_all
  from du i1 have du1: "due (idleThreshold ?t1) (lastWrite tf) p (SweepEv now rt)"
    by simp
  note S = due_sweep[OF d1 a(1) r du1]
  have d2: "distinct (map fst (files ?t2))"
    using step_keeps[OF d1, of "SweepEv now rt"] by simp
  have "closed_at ?t2 p"
    using S(1) by (simp add: closed_at_def)
  from closed_run[OF d2 this q2]
  have c: "count_list (queued (run ?t2 es2)) p = 0"
    by simp
  show "count_list (queued (run t es1)) p = 0" by (rule a(2))
  show "count_list (queued (check rt now ?t1)) p = 1" by (rule S(2))
  show "count_list (queued (run ?t2 es2)) p = 0" by (rule c)
  show "filter (\<lambda>s. TranscriptPath s = p) (callbacks (check rt now ?t1)) =
           (case parseTranscript rt p of None \<Rightarrow> [] | Some s \<Rightarrow> [s])"
    by (simp add: callbacks_of_sweep S(2) map_filter_simps split: option.splits)
qed

text \<open>
  Claim C1. To emit a completion for a path is to mark its entry reported and queue the
  path in \<^verbatim>\<open>readyPaths\<close>; the callback then runs once on the parsed session, if
  the parser returns one. In every state a tracker can reach: a sweep queues a path only
  when its idle time has reached the threshold and the oracle answers false. After a
  \<^verbatim>\<open>Touch\<close> at \<open>lw\<close>, as long as no sweep finds both conditions, nothing is
  queued for the path; the first sweep that finds both queues it exactly once; and no
  later sweep queues it again while no \<^verbatim>\<open>Touch\<close> of the path intervenes. If the
  oracle answers true at every sweep, the path is never queued.
\<close>

theorem completion_once_per_idle_episode:
  "(p \<in> set (queued (check rt now (state_of (run (NewTracker idle poll) es0)))) \<longrightarrow>
      (\<exists>tf. map_of (files (state_of (run (NewTracker idle poll) es0))) p = Some tf \<and>
            idle \<le> Sub now (lastWrite tf) \<and> \<not> processCheck rt p)) \<and>
   ((\<forall>e \<in> set es1. \<not> touches p e \<and> \<not> due idle lw p e) \<and>
    due idle lw p (SweepEv now rt) \<and>
    (\<forall>e \<in> set es2. \<not> touches p e) \<longrightarrow>
      count_list
        (queued (run (Touch (state_of (run (NewTracker idle poll) es0)) p lw) es1)) p = 0 \<and>
      count_list
        (queued (check rt now
           (state_of (run (Touch (state_of (run (NewTracker idle poll) es0)) p lw) es1)))) p = 1 \<and>
      filter (\<lambda>s. TranscriptPath s = p)
        (callbacks (check rt now
           (state_of (run (Touch (state_of (run (NewTracker idle poll) es0)) p lw) es1)))) =
        (case parseTranscript rt p of None \<Rightarrow> [] | Some s \<Rightarrow> [s]) \<and>
      count_list
        (queued (run
           (state_of (check rt now
              (state_of (run (Touch (state_of (run (NewTracker idle poll) es0)) p lw) es1))))
           es2)) p = 0) \<and>
   ((\<forall>e \<in> set es. oracle_live p e) \<longrightarrow>
      p \<notin> set (queued (run (state_of (run (NewTracker idle poll) es0)) es)))"
proof (intro conjI impI)
  let ?T = "state_of (run (NewTracker idle poll) es0)"
  have d: "distinct (map fst (files ?T))" and i: "idleThreshold ?T = idle"
    by (rule reach_keeps)+
  {
    assume "p \<in> set (queued (check rt now ?T))"
    from only_when[OF d this] i
    show "\<exists>tf. map_of (files ?T) p = Some tf \<and> idle \<le> Sub now (lastWrite tf) \<and>
               \<not> processCheck rt p"
      by auto
  }
  {
    assume "\<forall>e \<in> set es. oracle_live p e"
    from live_run[OF d this]
    show "p \<notin> set (queued (run ?T es))"
      by (simp add: count_list_0_iff)
  }
  assume h: "(\<forall>e \<in> set es1. \<not> touches p e \<and> \<not> due idle lw p e) \<and>
             due idle lw p (SweepEv now rt) \<and> (\<forall>e \<in> set es2. \<not> touches p e)"
  let ?t = "Touch ?T p lw"
  obtain tf where tf: "map_of (files ?t) p = Some tf" "lastWrite tf = lw" "\<not> reported tf"
    by (cases "map_of (files ?T) p") (simp_all add: Touch_at)
  have dt: "distinct (map fst (files ?t))" and it: "idleThreshold ?t = idle"
    using d i by (simp_all add: Touch_keeps)
  from h have q1: "\<forall>e \<in> set es1. \<not> touches p e \<and>
                     \<not> due (idleThreshold ?t) (lastWrite tf) p e"
    and du: "due (idleThreshold ?t) (lastWrite tf) p (SweepEv now rt)"
    and q2: "\<forall>e \<in> set es2. \<not> touches p e"
    by (simp_all add: it tf(2))
  note E = episode[OF dt tf(1) tf(3) q1 du q2]
  show "count_list (queued (run ?t es1)) p = 0" by (rule E(1))
  show "count_list (queued (check rt now (state_of (run ?t es1)))) p = 1" by (rule E(2))
  show "filter (\<lambda>s. TranscriptPath s = p) (callbacks (check rt now (state_of (run ?t es1)))) =
          (case parseTranscript rt p of None \<Rightarrow> [] | Some s \<Rightarrow> [s])" by (rule E(4))
  show "count_list (queued (run (state_of (check rt now (state_of (run ?t es1)))) es2)) p = 0"
    by (rule E(3))
qed

theorem completion_once_per_idle_episode_witness:
  "list_all (\<lambda>e. \<not> touches ex_path e \<and> \<not> due (10 * Second) t0 ex_path e) ex_before \<and>
   due (10 * Second) t0 ex_path (SweepEv (t0 + 35 * Second) ex_rt) \<and>
   list_all (\<lambda>e. \<not> touches ex_path e) ex_after \<and>
   queued (run (Touch ex_tracker ex_path t0) ex_before) = [] \<and>
   count_list
     (queued (check ex_rt (t0 + 35 * Second)
        (state_of (run (Touch ex_tracker ex_path t0) ex_before)))) ex_path = 1 \<and>
   map SessionID
     (callbacks (check ex_rt (t0 + 35 * Second)
        (state_of (run (Touch ex_tracker ex_path t0) ex_before)))) =
     [''cfa3335c-ea38-4cf8-a1f2-9e3cf9789708''] \<and>
   count_list
     (queued (run
        (state_of (check ex_rt (t0 + 35 * Second)
           (state_of (run (Touch ex_tracker ex_path t0) ex_before))))
        ex_after)) ex_path = 0"
proof -
  have h1: "list_all (\<lambda>e. \<not> touches ex_path e \<and> \<not> due (10 * Second) t0 ex_path e) ex_before"
    by code_simp
  have h2: "due (10 * Second) t0 ex_path (SweepEv (t0 + 35 * Second) ex_rt)"
    by code_simp
  have h3: "list_all (\<lambda>e. \<not> touches ex_path e) ex_after"
    by code_simp
  have r0: "run (NewTracker (10 * Second) (15 * Second)) [] = (ex_tracker, [], [])"
    by (simp add: run.simps ex_tracker_def)
  have q: "queued (run (Touch ex_tracker ex_path t0) ex_before) = []"
    by code_simp
  have c: "map SessionID
     (callbacks (check ex_rt (t0 + 35 * Second)
        (state_of (run (Touch ex_tracker ex_path t0) ex_before)))) =
     [''cfa3335c-ea38-4cf8-a1f2-9e3cf9789708'']"
    by code_simp
  from h1 h2 h3
    completion_once_per_idle_episode[where ?es0.0 = "[]" and idle = "10 * Second"
      and poll = "15 * Second" and p = ex_path and lw = t0 and ?es1.0 = ex_before
      and now = "t0 + 35 * Second" and rt = ex_rt and ?es2.0 = ex_after]
  have "count_list
     (queued (check ex_rt (t0 + 35 * Second)
        (state_of (run (Touch ex_tracker ex_path t0) ex_before)))) ex_path = 1 \<and>
   count_list
     (queued (run
        (state_of (check ex_rt (t0 + 35 * Second)
           (state_of (run (Touch ex_tracker ex_path t0) ex_before))))
        ex_after)) ex_path = 0"
    by (simp add: list_all_iff r0)
  with h1 h2 h3 q c show ?thesis by simp
qed

lemma quiet_callbacks:
  assumes "count_list (queued (run t es)) p = 0"
  shows "filter (\<lambda>s. TranscriptPath s = p) (callbacks (run t es)) = []"
  using assms
proof (induction es arbitrary: t)
  case Nil
  then show ?case by (simp add: run_Nil_parts)
next
  case (Cons e es)
  from Cons.prems have a: "count_list (queued (step t e)) p = 0"
    and b: "count_list (queued (run (state_of (step t e)) es)) p = 0"
    by (simp_all add: run_Cons_parts)
  have "filter (\<lambda>s. TranscriptPath s = p) (callbacks (step t e)) = []"
  proof (cases e)
    case (TouchEv q now)
    then show ?thesis by simp
  next
    case (SweepEv now rt)
    with a show ?thesis by (simp add: callbacks_of_sweep map_filter_simps)
  qed
  with Cons.IH[OF b] show ?case by (simp add: run_Cons_parts)
qed

text \<open>
  Claim C2. A \<^verbatim>\<open>Touch\<close> of a path whose entry is reported sets the entry's
  \<^verbatim>\<open>reported\<close> to false and its \<^verbatim>\<open>lastWrite\<close> to the clock's reading.
  In the history that follows, up to the next \<^verbatim>\<open>Touch\<close> of the path, the first
  sweep at which the idle time has again reached the threshold and the oracle answers
  false queues the path, and the path is queued exactly once in all.
\<close>

theorem touch_reopens_reported_entry:
  "map_of (files (state_of (run (NewTracker idle poll) es0))) p = Some tf \<and> reported tf \<longrightarrow>
     map_of (files (Touch (state_of (run (NewTracker idle poll) es0)) p now)) p =
       Some (tf\<lparr>lastWrite := now, reported := False\<rparr>) \<and>
     ((\<forall>e \<in> set es1. \<not> touches p e \<and> \<not> due idle now p e) \<and>
      due idle now p (SweepEv n rt) \<and>
      (\<forall>e \<in> set es2. \<not> touches p e) \<longrightarrow>
        count_list
          (queued (run (Touch (state_of (run (NewTracker idle poll) es0)) p now)
             (es1 @ SweepEv n rt # es2))) p = 1 \<and>
        filter (\<lambda>s. TranscriptPath s = p)
          (callbacks (run (Touch (state_of (run (NewTracker idle poll) es0)) p now)
             (es1 @ SweepEv n rt # es2))) =
          (case parseTranscript rt p of None \<Rightarrow> [] | Some s \<Rightarrow> [s]))"
proof (intro impI conjI)
  let ?T = "state_of (run (NewTracker idle poll) es0)"
  let ?t = "Touch ?T p now"
  assume a: "map_of (files ?T) p = Some tf \<and> reported tf"
  then show m: "map_of (files ?t) p = Some (tf\<lparr>lastWrite := now, reported := False\<rparr>)"
    by (simp add: Touch_at)
  have d: "distinct (map fst (files ?T))" and i: "idleThreshold ?T = idle"
    by (rule reach_keeps)+
  have dt: "distinct (map fst (files ?t))" and it: "idleThreshold ?t = idle"
    using d i by (simp_all add: Touch_keeps)
  assume h: "(\<forall>e \<in> set es1. \<not> touches p e \<and> \<not> due idle now p e) \<and>
             due idle now p (SweepEv n rt) \<and> (\<forall>e \<in> set es2. \<not> touches p e)"
  let ?tf = "tf\<lparr>lastWrite := now, reported := False\<rparr>"
  from h have q1: "\<forall>e \<in> set es1. \<not> touches p e \<and>
                     \<not> due (idleThreshold ?t) (lastWrite ?tf) p e"
    and du: "due (idleThreshold ?t) (lastWrite ?tf) p (SweepEv n rt)"
    and q2: "\<forall>e \<in> set es2. \<not> touches p e"
    by (simp_all add: it)
  have r: "\<not> reported ?tf" by simp
  note E = episode[OF dt m r q1 du q2]
  show "count_list (queued (run ?t (es1 @ SweepEv n rt # es2))) p = 1"
    using E(1,2,3) by (simp add: run_append_parts run_Cons_parts)
  show "filter (\<lambda>s. TranscriptPath s = p) (callbacks (run ?t (es1 @ SweepEv n rt # es2))) =
          (case parseTranscript rt p of None \<Rightarrow> [] | Some s \<Rightarrow> [s])"
    using E(4) quiet_callbacks[OF E(1)] quiet_callbacks[OF E(3)]
    by (simp add: run_append_parts run_Cons_parts)
qed

theorem touch_reopens_reported_entry_witness:
  "map reported (map snd (files (state_of
      (run ex_tracker [TouchEv ex_path t0, SweepEv (t0 + 35 * Second) ex_rt])))) = [True] \<and>
   map reported (map snd (files (Touch (state_of
      (run ex_tracker [TouchEv ex_path t0, SweepEv (t0 + 35 * Second) ex_rt]))
      ex_path (t0 + 60 * Second)))) = [False] \<and>
   list_all (\<lambda>e. \<not> touches ex_path e \<and> \<not> due (10 * Second) (t0 + 60 * Second) ex_path e)
     [SweepEv (t0 + 65 * Second) ex_rt] \<and>
   due (10 * Second) (t0 + 60 * Second) ex_path (SweepEv (t0 + 80 * Second) ex_rt) \<and>
   list_all (\<lambda>e. \<not> touches ex_path e) [SweepEv (t0 + 95 * Second) ex_rt] \<and>
   queued (run (Touch (state_of
      (run ex_tracker [TouchEv ex_path t0, SweepEv (t0 + 35 * Second) ex_rt]))
      ex_path (t0 + 60 * Second))
      ([SweepEv (t0 + 65 * Second) ex_rt] @ SweepEv (t0 + 80 * Second) ex_rt #
       [SweepEv (t0 + 95 * Second) ex_rt])) = [ex_path] \<and>
   count_list (queued (run (Touch (state_of
      (run ex_tracker [TouchEv ex_path t0, SweepEv (t0 + 35 * Second) ex_rt]))
      ex_path (t0 + 60 * Second))
      ([SweepEv (t0 + 65 * Second) ex_rt] @ SweepEv (t0 + 80 * Second) ex_rt #
       [SweepEv (t0 + 95 * Second) ex_rt]))) ex_path = 1"
proof -
  let ?es0 = "[TouchEv ex_path t0, SweepEv (t0 + 35 * Second) ex_rt]"
  let ?T = "state_of (run ex_tracker ?es0)"
  have f: "files ?T =
     [(ex_path, \<lparr>path = ex_path, lastWrite = t0, reported = True,
                 reportedAt = t0 + 35 * Second\<rparr>)]"
    by code_simp
  then have m: "map_of (files ?T) ex_path =
     Some \<lparr>path = ex_path, lastWrite = t0, reported = True, reportedAt = t0 + 35 * Second\<rparr>"
    by simp
  have r1: "map reported (map snd (files ?T)) = [True]"
    by (simp add: f)
  have r2: "map reported (map snd (files (Touch ?T ex_path (t0 + 60 * Second)))) = [False]"
    by code_simp
  have h1: "list_all (\<lambda>e. \<not> touches ex_path e \<and>
                \<not> due (10 * Second) (t0 + 60 * Second) ex_path e)
     [SweepEv (t0 + 65 * Second) ex_rt]"
    by code_simp
  have h2: "due (10 * Second) (t0 + 60 * Second) ex_path (SweepEv (t0 + 80 * Second) ex_rt)"
    by code_simp
  have h3: "list_all (\<lambda>e. \<not> touches ex_path e) [SweepEv (t0 + 95 * Second) ex_rt]"
    by code_simp
  have q: "queued (run (Touch ?T ex_path (t0 + 60 * Second))
      ([SweepEv (t0 + 65 * Second) ex_rt] @ SweepEv (t0 + 80 * Second) ex_rt #
       [SweepEv (t0 + 95 * Second) ex_rt])) = [ex_path]"
    by code_simp
  from m h1 h2 h3
    touch_reopens_reported_entry[where ?es0.0 = ?es0 and idle = "10 * Second"
      and poll = "15 * Second" and p = ex_path and now = "t0 + 60 * Second"
      and tf = "\<lparr>path = ex_path, lastWrite = t0, reported = True,
                  reportedAt = t0 + 35 * Second\<rparr>"
      and ?es1.0 = "[SweepEv (t0 + 65 * Second) ex_rt]"
      and n = "t0 + 80 * Second" and rt = ex_rt
      and ?es2.0 = "[SweepEv (t0 + 95 * Second) ex_rt]"]
  have "count_list (queued (run (Touch ?T ex_path (t0 + 60 * Second))
      ([SweepEv (t0 + 65 * Second) ex_rt] @ SweepEv (t0 + 80 * Second) ex_rt #
       [SweepEv (t0 + 95 * Second) ex_rt]))) ex_path = 1"
    unfolding ex_tracker_def by (simp add: list_all_iff)
  with r1 r2 h1 h2 h3 q show ?thesis by simp
qed

subsection \<open>Eviction\<close>

lemma stamped_step:
  assumes "distinct (map fst (files t))" and "stamped t" and "clock_ok e"
  shows "stamped (state_of (step t e))"
proof (cases e)
  case (TouchEv q now)
  with assms(2) show ?thesis
    by (auto simp: stamped_def Touch_at split: if_splits option.splits)
next
  case (SweepEv now rt)
  with assms(2,3) show ?thesis
    by (auto simp: stamped_def sweep_at(1)[OF assms(1)] entry_after_def
        split: if_splits option.splits)
qed

lemma stamped_run:
  assumes "distinct (map fst (files t))" and "stamped t" and "\<forall>e \<in> set es. clock_ok e"
  shows "stamped (state_of (run t es))"
  using assms
proof (induction es arbitrary: t)
  case Nil
  then show ?case by (simp add: run_Nil_parts)
next
  case (Cons e es)
  from Cons.prems have c: "clock_ok e" and cs: "\<forall>e \<in> set es. clock_ok e"
    by simp_all
  from step_keeps[OF Cons.prems(1), of e] stamped_step[OF Cons.prems(1,2) c]
    Cons.IH[of "state_of (step t e)"] cs
  show ?case by (simp add: run_Cons_parts)
qed

lemma stamped_reach:
  "\<forall>e \<in> set es. clock_ok e \<Longrightarrow> stamped (state_of (run (NewTracker idle poll) es))"
  by (rule stamped_run) (simp_all add: stamped_def)

lemma evict_sweep:
  assumes "distinct (map fst (files t))"
      and "map_of (files t) p = Some tf" and "reported tf" and "\<not> IsZero (reportedAt tf)"
      and "cleanupGrace \<le> now - reportedAt tf"
  shows "map_of (files (state_of (check rt now t))) p = None"
    and "count_list (queued (check rt now t)) p = 0"
  using assms(2,3,4) Sub_ge[OF assms(5)]
  by (simp_all add: sweep_at[OF assms(1)] entry_after_def evictable_def completes_def)

lemma reported_run:
  assumes "distinct (map fst (files t))"
      and "map_of (files t) p = Some tf" and "reported tf"
      and "\<forall>e \<in> set es. \<not> touches p e"
  shows "map_of (files (state_of (run t es))) p = None \<or>
         map_of (files (state_of (run t es))) p = Some tf"
proof -
  have "distinct (map fst (files t)) \<Longrightarrow>
        map_of (files t) p = None \<or> map_of (files t) p = Some tf \<Longrightarrow>
        \<forall>e \<in> set es. \<not> touches p e \<Longrightarrow>
        map_of (files (state_of (run t es))) p = None \<or>
        map_of (files (state_of (run t es))) p = Some tf" for t
  proof (induction es arbitrary: t)
    case Nil
    then show ?case by (simp add: run_Nil_parts)
  next
    case (Cons e es)
    from Cons.prems(3) have e: "\<not> touches p e" and es: "\<forall>e \<in> set es. \<not> touches p e"
      by simp_all
    have "map_of (files (state_of (step t e))) p = None \<or>
          map_of (files (state_of (step t e))) p = Some tf"
      using e Cons.prems(2) assms(3)
      by (cases e)
         (auto simp: Touch_at sweep_at(1)[OF Cons.prems(1)] entry_after_def completes_def
            split: if_splits)
    from Cons.IH[OF _ this es] step_keeps[OF Cons.prems(1), of e]
    show ?case by (simp add: run_Cons_parts)
  qed
  from this[OF assms(1) _ assms(4)] assms(2) show ?thesis by simp
qed

text \<open>
  Claim C8. The grace period is five minutes. In every state a tracker reaches with a
  clock that never reads the zero Time: a sweep at least the grace period after the
  \<^verbatim>\<open>reportedAt\<close> of a reported entry deletes the entry, whatever its idle time and
  whatever the oracle answers, and neither queues its path nor calls back for it. The
  schedule does not depend on the parse: when a sweep reports an entry, also one whose
  file cannot be parsed and yields no callback, then with no \<^verbatim>\<open>Touch\<close> of the
  path in between, a sweep at least the grace period later leaves the path untracked.
\<close>

theorem reported_entry_evicted_after_grace:
  "cleanupGrace = 5 * 60 * 1000000000 \<and>
   ((\<forall>e \<in> set es0. clock_ok e) \<longrightarrow>
      (map_of (files (state_of (run (NewTracker idle poll) es0))) p = Some tf \<and>
       reported tf \<and> cleanupGrace \<le> now - reportedAt tf \<longrightarrow>
         map_of (files (state_of (check rt now (state_of (run (NewTracker idle poll) es0))))) p =
           None \<and>
         p \<notin> set (queued (check rt now (state_of (run (NewTracker idle poll) es0)))) \<and>
         filter (\<lambda>s. TranscriptPath s = p)
           (callbacks (check rt now (state_of (run (NewTracker idle poll) es0)))) = []) \<and>
      (map_of (files (state_of (run (NewTracker idle poll) es0))) p = Some tf' \<and>
       \<not> reported tf' \<and> due idle (lastWrite tf') p (SweepEv n1 rt1) \<and> \<not> IsZero n1 \<and>
       (\<forall>e \<in> set es1. \<not> touches p e) \<and> cleanupGrace \<le> n2 - n1 \<longrightarrow>
         (parseTranscript rt1 p = None \<longrightarrow>
            filter (\<lambda>s. TranscriptPath s = p)
              (callbacks (check rt1 n1 (state_of (run (NewTracker idle poll) es0)))) = []) \<and>
         map_of (files (state_of (check rt2 n2
           (state_of (run
              (state_of (check rt1 n1 (state_of (run (NewTracker idle poll) es0)))) es1))))) p =
           None))"
proof (intro conjI impI)
  show "cleanupGrace = 5 * 60 * 1000000000" by (simp add: cleanupGrace_def)
next
  let ?T = "state_of (run (NewTracker idle poll) es0)"
  have d: "distinct (map fst (files ?T))" and i: "idleThreshold ?T = idle"
    by (rule reach_keeps)+
  assume ck: "\<forall>e \<in> set es0. clock_ok e"
  then have st: "stamped ?T" by (rule stamped_reach)
  {
    assume a: "map_of (files ?T) p = Some tf \<and> reported tf \<and> cleanupGrace \<le> now - reportedAt tf"
    with st have nz: "\<not> IsZero (reportedAt tf)" by (auto simp: stamped_def)
    from a have m: "map_of (files ?T) p = Some tf" and r: "reported tf"
      and g: "cleanupGrace \<le> now - reportedAt tf" by simp_all
    note E = evict_sweep[OF d m r nz g, of rt]
    show "map_of (files (state_of (check rt now ?T))) p = None" by (rule E(1))
    show "p \<notin> set (queued (check rt now ?T))"
      using E(2) by (simp add: count_list_0_iff)
    show "filter (\<lambda>s. TranscriptPath s = p) (callbacks (check rt now ?T)) = []"
      by (simp add: callbacks_of_sweep E(2) map_filter_simps)
  }
  assume b: "map_of (files ?T) p = Some tf' \<and> \<not> reported tf' \<and>
             due idle (lastWrite tf') p (SweepEv n1 rt1) \<and> \<not> IsZero n1 \<and>
             (\<forall>e \<in> set es1. \<not> touches p e) \<and> cleanupGrace \<le> n2 - n1"
  then have m: "map_of (files ?T) p = Some tf'" and r: "\<not> reported tf'"
    and du: "due (idleThreshold ?T) (lastWrite tf') p (SweepEv n1 rt1)"
    and nz: "\<not> IsZero n1" and q: "\<forall>e \<in> set es1. \<not> touches p e"
    and g: "cleanupGrace \<le> n2 - n1"
    by (simp_all add: i)
  let ?t1 = "state_of (check rt1 n1 ?T)"
  let ?tf = "tf'\<lparr>reported := True, reportedAt := n1\<rparr>"
  note S = due_sweep[OF d m r du]
  have d1: "distinct (map fst (files ?t1))"
    using step_keeps[OF d, of "SweepEv n1 rt1"] by simp
  let ?t2 = "state_of (run ?t1 es1)"
  have d2: "distinct (map fst (files ?t2))"
    using run_keeps[OF d1, of es1] by simp
  have rep: "reported ?tf" by simp
  from reported_run[OF d1 S(1) rep q]
  have c: "map_of (files ?t2) p = None \<or> map_of (files ?t2) p = Some ?tf" .
  show "map_of (files (state_of (check rt2 n2 ?t2))) p = None"
  proof (rule disjE[OF c])
    assume "map_of (files ?t2) p = None"
    then show ?thesis by (simp add: sweep_at(1)[OF d2])
  next
    assume m2: "map_of (files ?t2) p = Some ?tf"
    have nz2: "\<not> IsZero (reportedAt ?tf)" using nz by simp
    have g2: "cleanupGrace \<le> n2 - reportedAt ?tf" using g by simp
    from evict_sweep(1)[OF d2 m2 rep nz2 g2] show ?thesis .
  qed
  {
    assume "parseTranscript rt1 p = None"
    then show "filter (\<lambda>s. TranscriptPath s = p) (callbacks (check rt1 n1 ?T)) = []"
      by (simp add: callbacks_of_sweep S(2) map_filter_simps)
  }
qed

theorem reported_entry_evicted_after_grace_witness:
  "list_all clock_ok [TouchEv ex_path t0] \<and>
   files (state_of (run (NewTracker (10 * Second) (15 * Second)) [TouchEv ex_path t0])) =
     [(ex_path, ex_entry)] \<and>
   due (10 * Second) t0 ex_path (SweepEv (t0 + 35 * Second) ex_rt_gone) \<and>
   parseTranscript ex_rt_gone ex_path = None \<and>
   cleanupGrace \<le> (t0 + 335 * Second) - (t0 + 35 * Second) \<and>
   callbacks (check ex_rt_gone (t0 + 35 * Second)
     (state_of (run (NewTracker (10 * Second) (15 * Second)) [TouchEv ex_path t0]))) = [] \<and>
   map_of (files (state_of (check ex_rt (t0 + 335 * Second)
     (state_of (run
        (state_of (check ex_rt_gone (t0 + 35 * Second)
           (state_of (run (NewTracker (10 * Second) (15 * Second)) [TouchEv ex_path t0]))))
        [SweepEv (t0 + 50 * Second) ex_rt]))))) ex_path = None"
proof -
  let ?T = "state_of (run (NewTracker (10 * Second) (15 * Second)) [TouchEv ex_path t0])"
  have h0: "list_all clock_ok [TouchEv ex_path t0]"
    by code_simp
  have f: "files ?T = [(ex_path, ex_entry)]"
    by code_simp
  then have m: "map_of (files ?T) ex_path = Some ex_entry"
    by simp
  have nr: "\<not> reported ex_entry" and lw: "lastWrite ex_entry = t0"
    by (simp_all add: ex_entry_def)
  have h1: "due (10 * Second) t0 ex_path (SweepEv (t0 + 35 * Second) ex_rt_gone)"
    by code_simp
  have h2: "\<not> IsZero (t0 + 35 * Second)"
    by code_simp
  have h3: "\<forall>e \<in> set [SweepEv (t0 + 50 * Second) ex_rt]. \<not> touches ex_path e"
    by simp
  have h4: "cleanupGrace \<le> (t0 + 335 * Second) - (t0 + 35 * Second)"
    by code_simp
  have h5: "parseTranscript ex_rt_gone ex_path = None"
    by code_simp
  have cb: "callbacks (check ex_rt_gone (t0 + 35 * Second) ?T) = []"
    by code_simp
  from h0 m nr h1 h2 h3 h4
    reported_entry_evicted_after_grace[where ?es0.0 = "[TouchEv ex_path t0]"
      and idle = "10 * Second" and poll = "15 * Second" and p = ex_path and tf' = ex_entry
      and ?n1.0 = "t0 + 35 * Second" and ?rt1.0 = ex_rt_gone
      and ?es1.0 = "[SweepEv (t0 + 50 * Second) ex_rt]"
      and ?n2.0 = "t0 + 335 * Second" and ?rt2.0 = ex_rt]
  have "map_of (files (state_of (check ex_rt (t0 + 335 * Second)
     (state_of (run (state_of (check ex_rt_gone (t0 + 35 * Second) ?T))
        [SweepEv (t0 + 50 * Second) ex_rt]))))) ex_path = None"
    by (simp add: list_all_iff lw)
  with h0 f h1 h5 h4 cb show ?thesis by simp
qed

subsection \<open>Stopping the loop\<close>

lemma check_done: "done_chan (state_of (check rt now t)) = done_chan t"
  by (simp add: check_def check_locked_def split: prod.splits)

lemma acts_append:
  "acts s (as @ bs) = (case acts s as of Inl f \<Rightarrow> Inl f | Inr s' \<Rightarrow> acts s' bs)"
  by (induction as arbitrary: s) (simp_all split: sum.splits)

lemma stopped_running:
  assumes "loop s = Running" and "done_chan (tracker s) = Closed"
      and "\<forall>a \<in> set as. \<not> takes_done a \<and> a \<noteq> CallStop"
  shows "\<exists>s'. acts s as = Inr s' \<and> loop s' = Running \<and> done_chan (tracker s') = Closed \<and>
              sweeps s' = sweeps s + length (filter is_select as)"
  using assms
proof (induction as arbitrary: s)
  case Nil
  then show ?case by simp
next
  case (Cons a as)
  from Cons.prems(3) have a: "\<not> takes_done a" "a \<noteq> CallStop"
    and as: "\<forall>a \<in> set as. \<not> takes_done a \<and> a \<noteq> CallStop"
    by simp_all
  show ?case
  proof (cases a)
    case (AtSelect tick pick)
    with a(1) obtain now rt where t: "tick = Some (now, rt)" and p: "\<not> pick"
      by (cases tick) auto
    let ?s1 = "s\<lparr>tracker := state_of (check rt now (tracker s)), sweeps := Suc (sweeps s)\<rparr>"
    have s1: "act s a = Inr ?s1"
      using Cons.prems(1) p by (simp add: AtSelect t Start_select_def)
    have "loop ?s1 = Running" "done_chan (tracker ?s1) = Closed"
      using Cons.prems(1,2) by (simp_all add: check_done)
    from Cons.IH[OF this as] s1 show ?thesis
      by (auto simp: AtSelect)
  next
    case CallStop
    with a(2) show ?thesis by simp
  next
    case (CallTouch p now)
    let ?s1 = "s\<lparr>tracker := Touch (tracker s) p now\<rparr>"
    have "loop ?s1 = Running" "done_chan (tracker ?s1) = Closed"
      using Cons.prems(1,2) by (simp_all add: Touch_keeps)
    from Cons.IH[OF this as] show ?thesis
      by (auto simp: CallTouch)
  qed
qed

lemma returned_stays:
  assumes "loop s = Returned" and "CallStop \<notin> set as"
  shows "\<exists>s'. acts s as = Inr s' \<and> loop s' = Returned \<and> sweeps s' = sweeps s"
  using assms
proof (induction as arbitrary: s)
  case Nil
  then show ?case by simp
next
  case (Cons a as)
  from Cons.prems(2) have a: "a \<noteq> CallStop" and as: "CallStop \<notin> set as"
    by auto
  show ?case
  proof (cases a)
    case (AtSelect tick pick)
    have "act s a = Inr s"
      using Cons.prems(1) by (simp add: AtSelect Start_select_def)
    with Cons.IH[OF Cons.prems(1) as] show ?thesis by simp
  next
    case CallStop
    with a show ?thesis by simp
  next
    case (CallTouch p now)
    let ?s1 = "s\<lparr>tracker := Touch (tracker s) p now\<rparr>"
    have "loop ?s1 = Returned" using Cons.prems(1) by simp
    from Cons.IH[OF this as] show ?thesis by (auto simp: CallTouch)
  qed
qed

lemma take_done:
  assumes "loop s = Running" and "done_chan (tracker s) = Closed" and "takes_done a"
  shows "act s a = Inr (s\<lparr>loop := Returned\<rparr>)"
proof (cases a)
  case (AtSelect tick pick)
  with assms show ?thesis
    by (cases tick) (auto simp: Start_select_def)
qed (use assms in simp_all)

text \<open>
  Claim C9, amended. A call of \<^verbatim>\<open>Stop\<close> while \<^verbatim>\<open>done\<close> is open, so the
  first call on any tracker, completes without fault and closes the channel; a call
  while it is closed panics. After \<^verbatim>\<open>Stop\<close>, the loop of \<^verbatim>\<open>Start\<close> returns
  at the first \<^verbatim>\<open>select\<close> that takes the \<^verbatim>\<open>done\<close> case, which is the next
  one unless a tick is ready too and is picked; it has run one sweep for each
  \<^verbatim>\<open>select\<close> before that and runs none after. While \<^verbatim>\<open>done\<close> is open and
  no tick is ready, a \<^verbatim>\<open>select\<close> changes nothing: the loop waits, it does not spin.
\<close>

theorem stop_once_ends_the_loop:
  "(done_chan t = Open \<longrightarrow> Stop t = Inr (t\<lparr>done_chan := Closed\<rparr>)) \<and>
   Stop (state_of (run (NewTracker idle poll) es)) =
     Inr ((state_of (run (NewTracker idle poll) es))\<lparr>done_chan := Closed\<rparr>) \<and>
   (done_chan t = Closed \<longrightarrow> Stop t = Inl CloseOfClosedChannel) \<and>
   (loop s = Running \<and> done_chan (tracker s) = Open \<and>
    (\<forall>a \<in> set as1. \<not> takes_done a \<and> a \<noteq> CallStop) \<and> takes_done a \<and>
    CallStop \<notin> set as2 \<longrightarrow>
      (\<exists>s'. acts s (CallStop # as1 @ a # as2) = Inr s' \<and> loop s' = Returned \<and>
            sweeps s' = sweeps s + length (filter is_select as1))) \<and>
   (loop s = Running \<and> done_chan (tracker s) = Open \<longrightarrow> act s (AtSelect None b) = Inr s)"
proof (intro conjI impI)
  show "Stop t = Inr (t\<lparr>done_chan := Closed\<rparr>)" if "done_chan t = Open"
    using that by (simp add: Stop_def)
  show "Stop t = Inl CloseOfClosedChannel" if "done_chan t = Closed"
    using that by (simp add: Stop_def)
  have "done_chan (state_of (run (NewTracker idle poll) es)) = Open"
    using run_keeps[of "NewTracker idle poll" es] by simp
  then show "Stop (state_of (run (NewTracker idle poll) es)) =
     Inr ((state_of (run (NewTracker idle poll) es))\<lparr>done_chan := Closed\<rparr>)"
    by (simp add: Stop_def)
  show "act s (AtSelect None b) = Inr s" if "loop s = Running \<and> done_chan (tracker s) = Open"
    using that by (simp add: Start_select_def)
next
  assume h: "loop s = Running \<and> done_chan (tracker s) = Open \<and>
    (\<forall>a \<in> set as1. \<not> takes_done a \<and> a \<noteq> CallStop) \<and> takes_done a \<and> CallStop \<notin> set as2"
  let ?s0 = "s\<lparr>tracker := (tracker s)\<lparr>done_chan := Closed\<rparr>\<rparr>"
  from h have a0: "act s CallStop = Inr ?s0"
    by (simp add: Stop_def)
  have r0: "loop ?s0 = Running" "done_chan (tracker ?s0) = Closed"
    using h by simp_all
  from h have q: "\<forall>a \<in> set as1. \<not> takes_done a \<and> a \<noteq> CallStop" by simp
  from stopped_running[OF r0 q]
  obtain s1 where s1: "acts ?s0 as1 = Inr s1" "loop s1 = Running"
      "done_chan (tracker s1) = Closed"
      "sweeps s1 = sweeps s + length (filter is_select as1)"
    by auto
  from h have td: "takes_done a" by simp
  note a1 = take_done[OF s1(2,3) td]
  have "loop (s1\<lparr>loop := Returned\<rparr>) = Returned" by simp
  moreover from h have "CallStop \<notin> set as2" by simp
  ultimately obtain s2 where s2: "acts (s1\<lparr>loop := Returned\<rparr>) as2 = Inr s2"
      "loop s2 = Returned" "sweeps s2 = sweeps (s1\<lparr>loop := Returned\<rparr>)"
    using returned_stays by blast
  have "acts s (CallStop # as1 @ a # as2) = Inr s2"
    using a0 s1(1) a1 s2(1) by (simp add: acts_append)
  with s2(2,3) s1(4)
  show "\<exists>s'. acts s (CallStop # as1 @ a # as2) = Inr s' \<and> loop s' = Returned \<and>
            sweeps s' = sweeps s + length (filter is_select as1)"
    by simp
qed

theorem stop_once_ends_the_loop_witness:
  "loop (started ex_tracker) = Running \<and> done_chan (tracker (started ex_tracker)) = Open \<and>
   list_all (\<lambda>a. \<not> takes_done a \<and> a \<noteq> CallStop)
     [AtSelect (Some (t0 + 35 * Second, ex_rt)) False] \<and>
   takes_done (AtSelect None False) \<and>
   list_all (\<lambda>a. a \<noteq> CallStop) [CallTouch ex_path t0] \<and>
   (\<exists>s'. acts (started ex_tracker)
            (CallStop # [AtSelect (Some (t0 + 35 * Second, ex_rt)) False] @
             AtSelect None False # [CallTouch ex_path t0]) = Inr s' \<and>
         loop s' = Returned \<and> sweeps s' = 1)"
proof -
  have h1: "loop (started ex_tracker) = Running"
    "done_chan (tracker (started ex_tracker)) = Open"
    by (simp_all add: started_def ex_tracker_def)
  have h2: "list_all (\<lambda>a. \<not> takes_done a \<and> a \<noteq> CallStop)
     [AtSelect (Some (t0 + 35 * Second, ex_rt)) False]"
    by simp
  have h3: "takes_done (AtSelect None False)"
    by simp
  have h4: "list_all (\<lambda>a. a \<noteq> CallStop) [CallTouch ex_path t0]"
    by simp
  have z: "sweeps (started ex_tracker) = 0"
    by (simp add: started_def)
  have b1: "\<forall>a \<in> set [AtSelect (Some (t0 + 35 * Second, ex_rt)) False].
             \<not> takes_done a \<and> a \<noteq> CallStop"
    by simp
  have b2: "CallStop \<notin> set [CallTouch ex_path t0]"
    by simp
  have n: "sweeps (started ex_tracker) +
           length (filter is_select [AtSelect (Some (t0 + 35 * Second, ex_rt)) False]) = 1"
    by (simp add: z)
  note T = stop_once_ends_the_loop[where s = "started ex_tracker"
      and ?as1.0 = "[AtSelect (Some (t0 + 35 * Second, ex_rt)) False]"
      and a = "AtSelect None False" and ?as2.0 = "[CallTouch ex_path t0]"]
  note I = T[THEN conjunct2, THEN conjunct2, THEN conjunct2, THEN conjunct1]
  have "\<exists>s'. acts (started ex_tracker)
            (CallStop # [AtSelect (Some (t0 + 35 * Second, ex_rt)) False] @
             AtSelect None False # [CallTouch ex_path t0]) = Inr s' \<and>
         loop s' = Returned \<and>
         sweeps s' = sweeps (started ex_tracker) +
           length (filter is_select [AtSelect (Some (t0 + 35 * Second, ex_rt)) False])"
    by (rule I[rule_format]) (intro conjI h1 b1 h3 b2)
  then have "\<exists>s'. acts (started ex_tracker)
            (CallStop # [AtSelect (Some (t0 + 35 * Second, ex_rt)) False] @
             AtSelect None False # [CallTouch ex_path t0]) = Inr s' \<and>
         loop s' = Returned \<and> sweeps s' = 1"
    by (simp only: n)
  with h1 h2 h3 h4 show ?thesis by blast
qed

text \<open>
  Claim C9 as stated fails: a second call of \<^verbatim>\<open>Stop\<close> panics.
\<close>

theorem second_stop_panics_counterexample:
  "Stop ex_tracker = Inr (ex_tracker\<lparr>done_chan := Closed\<rparr>) \<and>
   Stop (ex_tracker\<lparr>done_chan := Closed\<rparr>) = Inl CloseOfClosedChannel \<and>
   acts (started ex_tracker) [CallStop, CallStop] = Inl CloseOfClosedChannel"
  by (simp add: Stop_def ex_tracker_def started_def NewTracker_def)

end
